theory Spec2Isabelle
  imports Main
begin

section \<open>Data model of src/batch.ts\<close>

text \<open>
  The class \<open>BatchFlusher<T>\<close> is embedded as a record of its private fields together
  with the part of the JavaScript runtime it talks to: the armed timeouts, the suspended
  asynchronous calls and a trace of every call that leaves the class (subscriber
  callbacks, the logger, the flush callback, settled promises).  Items have the
  arbitrary type \<open>'a\<close>, values thrown by the flush callback the type \<open>'e\<close>.
  Numbers of the configuration are integers.
\<close>

type_synonym timer = nat
type_synonym logger = nat
type_synonym callback = nat

text \<open>\<open>interface BatchFlusherState\<close>\<close>

record BatchFlusherState =
  size' :: nat
  isRunning :: bool
  isFlushing :: bool

text \<open>\<open>interface BatchFlusherConfig\<close>; an optional field that is \<open>undefined\<close> is \<open>None\<close>.\<close>

record BatchFlusherConfig =
  flushIntervalMs :: "int option"
  maxBatchSize :: int
  flushThreshold :: "int option"
  strictFlush :: "bool option"
  logger :: "logger option"

text \<open>
  One entry \<open>[k, v]\<close> of \<open>Object.entries\<close> of a \<open>Partial<BatchFlusherConfig>\<close>:
  the key with a value of the key's type, or \<open>undefined\<close> (\<open>None\<close>).
\<close>

datatype entry =
    FlushIntervalMs "int option"
  | MaxBatchSize "int option"
  | FlushThreshold "int option"
  | StrictFlush "bool option"
  | Logger "logger option"

datatype key = KFlushIntervalMs | KMaxBatchSize | KFlushThreshold | KStrictFlush | KLogger

fun key_of :: "entry \<Rightarrow> key" where
  "key_of (FlushIntervalMs _) = KFlushIntervalMs"
| "key_of (MaxBatchSize _) = KMaxBatchSize"
| "key_of (FlushThreshold _) = KFlushThreshold"
| "key_of (StrictFlush _) = KStrictFlush"
| "key_of (Logger _) = KLogger"

text \<open>The messages of \<open>this.#logger.debug\<close>, with the numbers they interpolate.\<close>

datatype dbg =
    DAdd nat
  | DCapApplied nat
  | DThresholdReached int
  | DFlushSkipped
  | DFlushing nat
  | DFlushComplete bool
  | DStart
  | DStop
  | DDrain

text \<open>
  What a call \<open>this._flusher(items)\<close> does before it returns: it throws, or it returns
  a promise (settled later by the environment).
\<close>

datatype 'e flusher_call = Throws 'e | Pending

text \<open>Who called \<open>flush()\<close> and awaits its promise.\<close>

datatype origin = ByCaller | ByThreshold | ByTimer | ByDrain

text \<open>
  Where a suspended asynchronous call stands:
  \<^item> \<open>AwaitFlusher\<close>: \<open>flush\<close> is suspended at \<open>await this._flusher(items)\<close>;
  \<^item> \<open>AwaitFlush r\<close>: the promise of \<open>flush()\<close> is settled with \<open>r\<close> and its caller
    (\<open>#doFlush\<close> or \<open>drain\<close>), suspended at \<open>await this.flush()\<close>, has not resumed yet;
  \<^item> \<open>AwaitDoFlush r\<close>: the promise of \<open>#doFlush()\<close> is settled (\<open>Some e\<close>: rejected
    with \<open>e\<close>) and the timer callback, suspended at \<open>await this.#doFlush()\<close>, has not
    resumed yet.
\<close>

datatype 'e stage = AwaitFlusher | AwaitFlush "'e + bool" | AwaitDoFlush "'e option"

type_synonym 'e task = "nat \<times> origin \<times> 'e stage"

text \<open>Calls that leave the class, in the order they happen.\<close>

datatype ('a, 'e) event =
    Invoke callback BatchFlusherState
  | Debug dbg
  | Warn "logger option" 'e
  | FlusherCalled nat "'a list"
  | Settled nat "'e + bool"
  | Unhandled 'e

record ('a, 'e) BatchFlusher =
  flusher :: "'a list \<Rightarrow> 'e flusher_call"
  config :: BatchFlusherConfig
  items :: "'a list"
  flushTimer :: "timer option"
  running :: bool
  flushing :: bool
  pubsub :: "callback list"
  logger_ns :: "logger option"
  armed :: "timer list"
  next_timer :: nat
  tasks :: "'e task list"
  next_task :: nat
  trace :: "('a, 'e) event list"

section \<open>Runtime primitives\<close>

definition emit :: "('a, 'e) event \<Rightarrow> ('a, 'e) BatchFlusher \<Rightarrow> ('a, 'e) BatchFlusher" where
  "emit ev s = s\<lparr>trace := trace s @ [ev]\<rparr>"

definition debug :: "dbg \<Rightarrow> ('a, 'e) BatchFlusher \<Rightarrow> ('a, 'e) BatchFlusher" where
  "debug m s = emit (Debug m) s"

text \<open>\<open>clearTimeout(h)\<close>: disarms the timeout of handle \<open>h\<close>; \<open>undefined\<close> and a handle
  that has fired or was cleared are ignored.\<close>

definition clearTimeout :: "timer option \<Rightarrow> ('a, 'e) BatchFlusher \<Rightarrow> ('a, 'e) BatchFlusher" where
  "clearTimeout h s = (case h of None \<Rightarrow> s | Some t \<Rightarrow> s\<lparr>armed := removeAll t (armed s)\<rparr>)"

text \<open>\<open>Array.prototype.slice(start)\<close> for an integer \<open>start\<close>.\<close>

definition slice :: "'a list \<Rightarrow> int \<Rightarrow> 'a list" where
  "slice xs start =
     (let len = int (length xs);
          k = (if start < 0 then max (len + start) 0 else min start len)
      in drop (nat k) xs)"

text \<open>JavaScript truthiness of a \<open>number | undefined\<close> and of a \<open>boolean | undefined\<close>.\<close>

definition truthy :: "int option \<Rightarrow> bool" where
  "truthy v = (case v of None \<Rightarrow> False | Some n \<Rightarrow> n \<noteq> 0)"

definition truthy_bool :: "bool option \<Rightarrow> bool" where
  "truthy_bool v = (case v of None \<Rightarrow> False | Some b \<Rightarrow> b)"

text \<open>
  Modelled from the spec: the publish/subscribe utility of the package
  \<open>@marianmeres/pubsub\<close> is not part of the sources.  It is an observer list:
  \<open>publish\<close> invokes every registered observer once with the payload, \<open>subscribe\<close>
  appends the observer, and the function \<open>subscribe\<close> returns removes it.
\<close>

definition publish :: "BatchFlusherState \<Rightarrow> ('a, 'e) BatchFlusher \<Rightarrow> ('a, 'e) BatchFlusher" where
  "publish st s = s\<lparr>trace := trace s @ map (\<lambda>cb. Invoke cb st) (pubsub s)\<rparr>"

definition pubsub_subscribe :: "callback \<Rightarrow> ('a, 'e) BatchFlusher \<Rightarrow> ('a, 'e) BatchFlusher" where
  "pubsub_subscribe cb s = s\<lparr>pubsub := pubsub s @ [cb]\<rparr>"

definition unsubscribe :: "callback \<Rightarrow> ('a, 'e) BatchFlusher \<Rightarrow> ('a, 'e) BatchFlusher" where
  "unsubscribe cb s = s\<lparr>pubsub := removeAll cb (pubsub s)\<rparr>"

section \<open>The methods of BatchFlusher\<close>

definition getState :: "('a, 'e) BatchFlusher \<Rightarrow> BatchFlusherState" where
  "getState s = \<lparr>size' = length (items s), isRunning = running s, isFlushing = flushing s\<rparr>"

definition notify :: "('a, 'e) BatchFlusher \<Rightarrow> ('a, 'e) BatchFlusher" where
  "notify s = publish (getState s) s"

text \<open>\<open>configure\<close>: the body of the \<open>forEach\<close> for one entry, and the loop.\<close>

fun configure_entry :: "entry \<Rightarrow> BatchFlusherConfig \<Rightarrow> BatchFlusherConfig" where
  "configure_entry (FlushIntervalMs v) c = (case v of None \<Rightarrow> c | Some n \<Rightarrow> c\<lparr>flushIntervalMs := Some n\<rparr>)"
| "configure_entry (MaxBatchSize v) c = (case v of None \<Rightarrow> c | Some n \<Rightarrow> c\<lparr>maxBatchSize := n\<rparr>)"
| "configure_entry (FlushThreshold v) c = (case v of None \<Rightarrow> c | Some n \<Rightarrow> c\<lparr>flushThreshold := Some n\<rparr>)"
| "configure_entry (StrictFlush v) c = (case v of None \<Rightarrow> c | Some b \<Rightarrow> c\<lparr>strictFlush := Some b\<rparr>)"
| "configure_entry (Logger v) c = (case v of None \<Rightarrow> c | Some l \<Rightarrow> c\<lparr>logger := Some l\<rparr>)"

definition configure :: "entry list \<Rightarrow> ('a, 'e) BatchFlusher \<Rightarrow> ('a, 'e) BatchFlusher" where
  "configure es s = s\<lparr>config := foldl (\<lambda>c e. configure_entry e c) (config s) es\<rparr>"

text \<open>
  The promise of a call of \<open>flush()\<close> is settled with \<open>r\<close>.  The promise of a call from
  outside is handed to the caller; \<open>#doFlush\<close> and \<open>drain\<close> resume in a later turn.
\<close>

definition flush_settled :: "nat \<Rightarrow> origin \<Rightarrow> 'e + bool \<Rightarrow> ('a, 'e) BatchFlusher \<Rightarrow> ('a, 'e) BatchFlusher" where
  "flush_settled tid org r s =
     (case org of
        ByCaller \<Rightarrow> emit (Settled tid r) s
      | _ \<Rightarrow> s\<lparr>tasks := tasks s @ [(tid, org, AwaitFlush r)]\<rparr>)"

text \<open>\<open>flush\<close> after \<open>await this._flusher(items)\<close>: the rest of the \<open>try\<close> block, which
  a rejection skips, and the \<open>finally\<close> block.\<close>

definition flush_finally :: "nat \<Rightarrow> origin \<Rightarrow> 'e + bool \<Rightarrow> ('a, 'e) BatchFlusher \<Rightarrow> ('a, 'e) BatchFlusher" where
  "flush_finally tid org r s =
     (let s1 = (case r of Inr b \<Rightarrow> debug (DFlushComplete b) s | Inl e \<Rightarrow> s);
          s2 = notify (s1\<lparr>flushing := False\<rparr>)
      in flush_settled tid org r s2)"

text \<open>\<open>flush\<close> up to its first \<open>await\<close> or \<open>return\<close>, called by \<open>org\<close>.\<close>

definition flush :: "origin \<Rightarrow> ('a, 'e) BatchFlusher \<Rightarrow> ('a, 'e) BatchFlusher" where
  "flush org s0 =
     (let tid = next_task s0;
          s = s0\<lparr>next_task := Suc tid\<rparr>
      in if items s = [] then flush_settled tid org (Inr True) (debug DFlushSkipped s)
         else
           let its = items s;
               s1 = s\<lparr>items := [], flushing := True\<rparr>;
               s2 = notify s1;
               s3 = debug (DFlushing (length its)) s2;
               s4 = emit (FlusherCalled tid its) s3
           in case flusher s4 its of
                Throws e \<Rightarrow> flush_finally tid org (Inl e) s4
              | Pending \<Rightarrow> s4\<lparr>tasks := tasks s4 @ [(tid, org, AwaitFlusher)]\<rparr>)"

text \<open>\<open>#doFlush\<close> up to \<open>await this.flush()\<close>.\<close>

definition doFlush :: "origin \<Rightarrow> ('a, 'e) BatchFlusher \<Rightarrow> ('a, 'e) BatchFlusher" where
  "doFlush org s = flush org s"

text \<open>\<open>#doFlush\<close> after \<open>await this.flush()\<close>: the new state and how the promise of
  \<open>#doFlush()\<close> is settled (\<open>Some e\<close>: rejected with \<open>e\<close>).\<close>

definition doFlush_resume :: "'e + bool \<Rightarrow> ('a, 'e) BatchFlusher \<Rightarrow> ('a, 'e) BatchFlusher \<times> 'e option" where
  "doFlush_resume r s =
     (case r of
        Inr b \<Rightarrow> (s, None)
      | Inl e \<Rightarrow>
          if truthy_bool (strictFlush (config s)) then (s, Some e)
          else (emit (Warn (logger (config s)) e) s, None))"

definition add :: "'a \<Rightarrow> ('a, 'e) BatchFlusher \<Rightarrow> ('a, 'e) BatchFlusher" where
  "add item s =
     (let s1 = s\<lparr>items := items s @ [item]\<rparr>;
          s2 = debug (DAdd (length (items s1))) s1;
          s3 = (if int (length (items s2)) > maxBatchSize (config s2)
                then let s' = s2\<lparr>items := slice (items s2) (- maxBatchSize (config s2))\<rparr>
                     in debug (DCapApplied (length (items s'))) s'
                else s2);
          s4 = notify s3;
          threshold = flushThreshold (config s4)
      in if truthy threshold \<and> int (length (items s4)) \<ge> the threshold
         then doFlush ByThreshold (debug (DThresholdReached (the threshold)) s4)
         else s4)"

text \<open>Auxiliary: the state of \<open>add\<close> after the push, the safety cap and the
  notification, before the threshold is looked at (the first half of \<open>add\<close>, see
  lemma \<open>add_eq\<close>).\<close>

definition buffered :: "'a \<Rightarrow> ('a, 'e) BatchFlusher \<Rightarrow> ('a, 'e) BatchFlusher" where
  "buffered item s =
     (let s1 = s\<lparr>items := items s @ [item]\<rparr>;
          s2 = debug (DAdd (length (items s1))) s1;
          s3 = (if int (length (items s2)) > maxBatchSize (config s2)
                then let s' = s2\<lparr>items := slice (items s2) (- maxBatchSize (config s2))\<rparr>
                     in debug (DCapApplied (length (items s'))) s'
                else s2)
      in notify s3)"

definition reset :: "('a, 'e) BatchFlusher \<Rightarrow> ('a, 'e) BatchFlusher" where
  "reset s = notify (s\<lparr>items := []\<rparr>)"

definition dump :: "('a, 'e) BatchFlusher \<Rightarrow> 'a list" where
  "dump s = items s"

definition scheduleFlush :: "('a, 'e) BatchFlusher \<Rightarrow> ('a, 'e) BatchFlusher" where
  "scheduleFlush s =
     (if \<not> truthy (flushIntervalMs (config s)) then s
      else s\<lparr>flushTimer := Some (next_timer s),
             armed := armed s @ [next_timer s],
             next_timer := Suc (next_timer s)\<rparr>)"

definition start :: "('a, 'e) BatchFlusher \<Rightarrow> ('a, 'e) BatchFlusher" where
  "start s = scheduleFlush (notify ((debug DStart s)\<lparr>running := True\<rparr>))"

definition stop :: "('a, 'e) BatchFlusher \<Rightarrow> ('a, 'e) BatchFlusher" where
  "stop s =
     (let s1 = (debug DStop s)\<lparr>running := False\<rparr>
      in notify (clearTimeout (flushTimer s1) s1))"

text \<open>\<open>drain\<close> up to \<open>await this.flush()\<close>.\<close>

definition drain :: "('a, 'e) BatchFlusher \<Rightarrow> ('a, 'e) BatchFlusher" where
  "drain s = flush ByDrain (debug DDrain s)"

definition subscribe :: "callback \<Rightarrow> ('a, 'e) BatchFlusher \<Rightarrow> ('a, 'e) BatchFlusher" where
  "subscribe cb s = pubsub_subscribe cb (emit (Invoke cb (getState s)) s)"

text \<open>The field initialisers and the constructor.\<close>

definition initial :: "('a list \<Rightarrow> 'e flusher_call) \<Rightarrow> ('a, 'e) BatchFlusher" where
  "initial f =
     \<lparr>flusher = f,
      config = \<lparr>flushIntervalMs = Some 1000, maxBatchSize = 100, flushThreshold = None,
                strictFlush = Some False, logger = None\<rparr>,
      items = [], flushTimer = None, running = False, flushing = False, pubsub = [],
      logger_ns = None, armed = [], next_timer = 0, tasks = [], next_task = 0, trace = []\<rparr>"

definition new_BatchFlusher ::
  "('a list \<Rightarrow> 'e flusher_call) \<Rightarrow> entry list option \<Rightarrow> bool \<Rightarrow> ('a, 'e) BatchFlusher" where
  "new_BatchFlusher f cfg autostart =
     (let s1 = (case cfg of None \<Rightarrow> initial f | Some es \<Rightarrow> configure es (initial f));
          s2 = s1\<lparr>logger_ns := logger (config s1)\<rparr>
      in if autostart then start s2 else s2)"

section \<open>The event loop\<close>

definition take_task :: "nat \<Rightarrow> ('a, 'e) BatchFlusher \<Rightarrow> ('a, 'e) BatchFlusher" where
  "take_task tid s = s\<lparr>tasks := filter (\<lambda>t. fst t \<noteq> tid) (tasks s)\<rparr>"

text \<open>The promise returned by the flush callback for call \<open>tid\<close> is settled with \<open>r\<close>
  and \<open>flush\<close> resumes.\<close>

definition settle :: "nat \<Rightarrow> 'e + bool \<Rightarrow> ('a, 'e) BatchFlusher \<Rightarrow> ('a, 'e) BatchFlusher" where
  "settle tid r s =
     (case map_of (tasks s) tid of
        Some (org, AwaitFlusher) \<Rightarrow> flush_finally tid org r (take_task tid s)
      | _ \<Rightarrow> s)"

text \<open>The caller suspended on the settled promise of call \<open>tid\<close> resumes: \<open>#doFlush\<close>
  after \<open>await this.flush()\<close> (called from \<open>add\<close>, nobody awaits it, or from the timer
  callback), the timer callback after \<open>await this.#doFlush()\<close>, \<open>drain\<close> after
  \<open>await this.flush()\<close>.\<close>

definition resume :: "nat \<Rightarrow> ('a, 'e) BatchFlusher \<Rightarrow> ('a, 'e) BatchFlusher" where
  "resume tid s =
     (case map_of (tasks s) tid of
        Some (ByThreshold, AwaitFlush r) \<Rightarrow>
          (case doFlush_resume r (take_task tid s) of
             (s1, None) \<Rightarrow> s1
           | (s1, Some e) \<Rightarrow> emit (Unhandled e) s1)
      | Some (ByTimer, AwaitFlush r) \<Rightarrow>
          (case doFlush_resume r (take_task tid s) of
             (s1, d) \<Rightarrow> s1\<lparr>tasks := tasks s1 @ [(tid, ByTimer, AwaitDoFlush d)]\<rparr>)
      | Some (ByTimer, AwaitDoFlush None) \<Rightarrow>
          (let s1 = take_task tid s
           in scheduleFlush (clearTimeout (flushTimer s1) s1))
      | Some (ByTimer, AwaitDoFlush (Some e)) \<Rightarrow> emit (Unhandled e) (take_task tid s)
      | Some (ByDrain, AwaitFlush (Inr b)) \<Rightarrow> emit (Settled tid (Inr b)) (stop (take_task tid s))
      | Some (ByDrain, AwaitFlush (Inl e)) \<Rightarrow> emit (Settled tid (Inl e)) (take_task tid s)
      | _ \<Rightarrow> s)"

text \<open>The timeout of handle \<open>t\<close> fires: the callback given to \<open>setTimeout\<close> runs up to
  \<open>await this.#doFlush()\<close>.\<close>

definition fire :: "timer \<Rightarrow> ('a, 'e) BatchFlusher \<Rightarrow> ('a, 'e) BatchFlusher" where
  "fire t s = (if t \<in> set (armed s) then doFlush ByTimer (s\<lparr>armed := removeAll t (armed s)\<rparr>) else s)"

datatype ('a, 'e) action =
    Add 'a | Flush | Drain | Start | Stop | Reset | Configure "entry list"
  | Subscribe callback | Unsubscribe callback
  | Fire timer | Settle nat "'e + bool" | Resume nat

fun exec :: "('a, 'e) action \<Rightarrow> ('a, 'e) BatchFlusher \<Rightarrow> ('a, 'e) BatchFlusher" where
  "exec (Add x) s = add x s"
| "exec Flush s = flush ByCaller s"
| "exec Drain s = drain s"
| "exec Start s = start s"
| "exec Stop s = stop s"
| "exec Reset s = reset s"
| "exec (Configure es) s = configure es s"
| "exec (Subscribe cb) s = subscribe cb s"
| "exec (Unsubscribe cb) s = unsubscribe cb s"
| "exec (Fire t) s = fire t s"
| "exec (Settle tid r) s = settle tid r s"
| "exec (Resume tid) s = resume tid s"

definition run :: "('a, 'e) BatchFlusher \<Rightarrow> ('a, 'e) action list \<Rightarrow> ('a, 'e) BatchFlusher" where
  "run s as = foldl (\<lambda>s a. exec a s) s as"

section \<open>Reading the trace and the suspended calls\<close>

text \<open>The batches handed to the flush callback, in the order of the calls.\<close>

fun flusher_calls :: "('a, 'e) event list \<Rightarrow> 'a list list" where
  "flusher_calls [] = []"
| "flusher_calls (FlusherCalled tid its # evs) = its # flusher_calls evs"
| "flusher_calls (_ # evs) = flusher_calls evs"

text \<open>The snapshots the subscriber callback \<open>cb\<close> was invoked with.\<close>

fun invocations :: "callback \<Rightarrow> ('a, 'e) event list \<Rightarrow> BatchFlusherState list" where
  "invocations cb [] = []"
| "invocations cb (Invoke c st # evs) = (if c = cb then st # invocations cb evs else invocations cb evs)"
| "invocations cb (_ # evs) = invocations cb evs"

text \<open>The calls of the flush callback that were started by the threshold trigger or by
  the timer and whose promise is not settled yet.\<close>

definition in_flight_internal :: "('a, 'e) BatchFlusher \<Rightarrow> 'e task list" where
  "in_flight_internal s =
     filter (\<lambda>t. (fst (snd t) = ByThreshold \<or> fst (snd t) = ByTimer) \<and> snd (snd t) = AwaitFlusher) (tasks s)"

text \<open>The runs of the timer callback that have not finished.\<close>

definition timer_tasks :: "('a, 'e) BatchFlusher \<Rightarrow> 'e task list" where
  "timer_tasks s = filter (\<lambda>t. fst (snd t) = ByTimer) (tasks s)"

text \<open>Every suspended call carries an id that was issued before.\<close>

definition wf_tasks :: "('a, 'e) BatchFlusher \<Rightarrow> bool" where
  "wf_tasks s = list_all (\<lambda>t. fst t < next_task s) (tasks s)"

text \<open>The items a sequence of actions adds, in order.\<close>

fun added :: "('a, 'e) action list \<Rightarrow> 'a list" where
  "added [] = []"
| "added (Add x # as) = x # added as"
| "added (_ # as) = added as"

text \<open>The timer chain is single: at most one timeout is armed or one run of the timer
  callback unfinished, and an armed timeout is the one whose handle is stored.\<close>

definition timer_inv :: "('a, 'e) BatchFlusher \<Rightarrow> bool" where
  "timer_inv s =
     (length (armed s) + length (timer_tasks s) \<le> 1 \<and>
      list_all (\<lambda>t. flushTimer s = Some t) (armed s))"

text \<open>Every \<open>start()\<close> of the sequence is called when no timeout is armed and no run
  of the timer callback is unfinished.\<close>

fun starts_idle :: "('a, 'e) BatchFlusher \<Rightarrow> ('a, 'e) action list \<Rightarrow> bool" where
  "starts_idle s [] = True"
| "starts_idle s (a # as) =
     ((case a of Start \<Rightarrow> armed s = [] \<and> timer_tasks s = [] | _ \<Rightarrow> True) \<and>
      starts_idle (exec a s) as)"

section \<open>The accumulators of the test suite\<close>

text \<open>
  The constructor calls of tests/batch.test.ts, with a flush callback that returns a
  promise: \<open>{flushIntervalMs: 20, maxBatchSize: 4}\<close>,
  \<open>{flushIntervalMs: 0, flushThreshold: 3, maxBatchSize: 100}\<close>,
  \<open>{flushIntervalMs: 1000, maxBatchSize: 100}\<close> and
  \<open>{flushIntervalMs: 0, maxBatchSize: 100}\<close> without autostart.  Items are characters,
  so that a buffer reads as the tests print it.
\<close>

definition interval_batch :: "(char, string) BatchFlusher" where
  "interval_batch =
     new_BatchFlusher (\<lambda>_. Pending) (Some [FlushIntervalMs (Some 20), MaxBatchSize (Some 4)]) True"

definition amount_batch :: "(char, string) BatchFlusher" where
  "amount_batch =
     new_BatchFlusher (\<lambda>_. Pending)
       (Some [FlushIntervalMs (Some 0), FlushThreshold (Some 3), MaxBatchSize (Some 100)]) True"

definition drain_batch :: "(char, string) BatchFlusher" where
  "drain_batch =
     new_BatchFlusher (\<lambda>_. Pending) (Some [FlushIntervalMs (Some 1000), MaxBatchSize (Some 100)]) True"

definition manual_batch :: "(char, string) BatchFlusher" where
  "manual_batch =
     new_BatchFlusher (\<lambda>_. Pending) (Some [FlushIntervalMs (Some 0), MaxBatchSize (Some 100)]) False"

section \<open>Basic facts\<close>

lemmas prim_defs = emit_def debug_def clearTimeout_def publish_def notify_def getState_def
  pubsub_subscribe_def unsubscribe_def
lemmas flush_defs = flush_def flush_finally_def flush_settled_def doFlush_def
lemmas meth_defs = add_def reset_def scheduleFlush_def start_def stop_def drain_def subscribe_def
  configure_def initial_def new_BatchFlusher_def
lemmas loop_defs = take_task_def settle_def resume_def fire_def run_def doFlush_resume_def
lemmas test_defs = interval_batch_def amount_batch_def drain_batch_def manual_batch_def
lemmas all_defs = prim_defs flush_defs meth_defs loop_defs test_defs truthy_def truthy_bool_def
  in_flight_internal_def timer_tasks_def wf_tasks_def Let_def

lemma flusher_calls_append [simp]:
  "flusher_calls (xs @ ys) = flusher_calls xs @ flusher_calls ys"
  by (induction xs rule: flusher_calls.induct) simp_all

lemma invocations_append [simp]:
  "invocations cb (xs @ ys) = invocations cb xs @ invocations cb ys"
  by (induction cb xs rule: invocations.induct) simp_all

lemma flusher_calls_publish [simp]:
  "flusher_calls (map (\<lambda>cb. Invoke cb st) cbs) = []"
  by (induction cbs) simp_all

lemma invocations_publish:
  "invocations cb (map (\<lambda>c. Invoke c st) cbs) = replicate (count_list cbs cb) st"
  by (induction cbs) simp_all

lemma truthy_bool_iff: "truthy_bool v = (v = Some True)"
  by (cases v) (simp_all add: truthy_bool_def)

lemma slice_neg: "0 < c \<Longrightarrow> slice xs (- c) = drop (length xs - nat c) xs"
  by (auto simp: slice_def Let_def max_def intro!: arg_cong2 [where f = drop])

lemma run_Nil [simp]: "run s [] = s"
  by (simp add: run_def)

lemma run_Cons [simp]: "run s (a # as) = run (exec a s) as"
  by (simp add: run_def)

lemma run_append [simp]: "run s (as @ bs) = run (run s as) bs"
  by (simp add: run_def)

lemma emit_frame [simp]:
  "config (emit ev s) = config s" "flusher (emit ev s) = flusher s" "items (emit ev s) = items s"
  "running (emit ev s) = running s" "flushing (emit ev s) = flushing s"
  "pubsub (emit ev s) = pubsub s" "tasks (emit ev s) = tasks s"
  "next_task (emit ev s) = next_task s" "armed (emit ev s) = armed s"
  "flushTimer (emit ev s) = flushTimer s" "next_timer (emit ev s) = next_timer s"
  "trace (emit ev s) = trace s @ [ev]"
  by (simp_all add: emit_def)

lemma debug_frame [simp]:
  "config (debug m s) = config s" "flusher (debug m s) = flusher s" "items (debug m s) = items s"
  "running (debug m s) = running s" "flushing (debug m s) = flushing s"
  "pubsub (debug m s) = pubsub s" "tasks (debug m s) = tasks s"
  "next_task (debug m s) = next_task s" "armed (debug m s) = armed s"
  "flushTimer (debug m s) = flushTimer s" "next_timer (debug m s) = next_timer s"
  "trace (debug m s) = trace s @ [Debug m]"
  by (simp_all add: debug_def)

lemma notify_frame [simp]:
  "config (notify s) = config s" "flusher (notify s) = flusher s" "items (notify s) = items s"
  "running (notify s) = running s" "flushing (notify s) = flushing s"
  "pubsub (notify s) = pubsub s" "tasks (notify s) = tasks s"
  "next_task (notify s) = next_task s" "armed (notify s) = armed s"
  "flushTimer (notify s) = flushTimer s" "next_timer (notify s) = next_timer s"
  "trace (notify s) = trace s @ map (\<lambda>cb. Invoke cb (getState s)) (pubsub s)"
  by (simp_all add: notify_def publish_def)

lemma clearTimeout_frame [simp]:
  "config (clearTimeout h s) = config s" "flusher (clearTimeout h s) = flusher s"
  "items (clearTimeout h s) = items s"
  "running (clearTimeout h s) = running s" "flushing (clearTimeout h s) = flushing s"
  "pubsub (clearTimeout h s) = pubsub s" "tasks (clearTimeout h s) = tasks s"
  "next_task (clearTimeout h s) = next_task s"
  "flushTimer (clearTimeout h s) = flushTimer s" "next_timer (clearTimeout h s) = next_timer s"
  "trace (clearTimeout h s) = trace s"
  "armed (clearTimeout h s) = (case h of None \<Rightarrow> armed s | Some t \<Rightarrow> removeAll t (armed s))"
  by (simp_all add: clearTimeout_def split: option.splits)

lemma flush_empty:
  "items s = [] \<Longrightarrow>
   flush org s =
     flush_settled (next_task s) org (Inr True)
       (s\<lparr>next_task := Suc (next_task s), trace := trace s @ [Debug DFlushSkipped]\<rparr>)"
  by (simp add: flush_def prim_defs Let_def)

lemma flush_pending:
  "items s \<noteq> [] \<Longrightarrow> flusher s (items s) = Pending \<Longrightarrow>
   flush org s =
     s\<lparr>next_task := Suc (next_task s), items := [], flushing := True,
       trace := trace s @
         map (\<lambda>cb. Invoke cb \<lparr>size' = 0, isRunning = running s, isFlushing = True\<rparr>) (pubsub s) @
         [Debug (DFlushing (length (items s))), FlusherCalled (next_task s) (items s)],
       tasks := tasks s @ [(next_task s, org, AwaitFlusher)]\<rparr>"
  by (simp add: flush_def prim_defs Let_def)

lemma flush_throws:
  "items s \<noteq> [] \<Longrightarrow> flusher s (items s) = Throws e \<Longrightarrow>
   flush org s =
     flush_settled (next_task s) org (Inl e)
      (s\<lparr>next_task := Suc (next_task s), items := [], flushing := False,
       trace := trace s @
         map (\<lambda>cb. Invoke cb \<lparr>size' = 0, isRunning = running s, isFlushing = True\<rparr>) (pubsub s) @
         [Debug (DFlushing (length (items s))), FlusherCalled (next_task s) (items s)] @
         map (\<lambda>cb. Invoke cb \<lparr>size' = 0, isRunning = running s, isFlushing = False\<rparr>) (pubsub s)\<rparr>)"
  by (simp add: flush_def flush_finally_def prim_defs Let_def)

lemma settle_found:
  "map_of (tasks s) tid = Some (org, AwaitFlusher) \<Longrightarrow>
   settle tid r s =
     flush_settled tid org r
       (s\<lparr>tasks := filter (\<lambda>t. fst t \<noteq> tid) (tasks s), flushing := False,
          trace := trace s @ (case r of Inr b \<Rightarrow> [Debug (DFlushComplete b)] | Inl e \<Rightarrow> []) @
            map (\<lambda>cb. Invoke cb \<lparr>size' = length (items s), isRunning = running s, isFlushing = False\<rparr>)
              (pubsub s)\<rparr>)"
  by (cases r) (simp_all add: settle_def flush_finally_def take_task_def prim_defs Let_def)

lemma map_of_fresh:
  "list_all (\<lambda>t. fst t < n) ts \<Longrightarrow> map_of (ts @ [(n :: nat, v)]) n = Some v"
  by (induction ts) auto

lemma map_of_replaced:
  "map_of (filter (\<lambda>t. fst t \<noteq> tid) ts @ [(tid, v)]) tid = Some v"
  by (induction ts) auto

section \<open>configure\<close>

lemma fold_keep:
  "(KFlushIntervalMs \<notin> key_of ` set es \<longrightarrow>
      flushIntervalMs (foldl (\<lambda>c e. configure_entry e c) c es) = flushIntervalMs c) \<and>
   (KMaxBatchSize \<notin> key_of ` set es \<longrightarrow>
      maxBatchSize (foldl (\<lambda>c e. configure_entry e c) c es) = maxBatchSize c) \<and>
   (KFlushThreshold \<notin> key_of ` set es \<longrightarrow>
      flushThreshold (foldl (\<lambda>c e. configure_entry e c) c es) = flushThreshold c) \<and>
   (KStrictFlush \<notin> key_of ` set es \<longrightarrow>
      strictFlush (foldl (\<lambda>c e. configure_entry e c) c es) = strictFlush c) \<and>
   (KLogger \<notin> key_of ` set es \<longrightarrow>
      logger (foldl (\<lambda>c e. configure_entry e c) c es) = logger c)"
proof (induction es arbitrary: c)
  case Nil
  show ?case by simp
next
  case (Cons e es)
  show ?case using Cons.IH [of "configure_entry e c"]
    by (cases e) (auto split: option.splits)
qed

lemma fold_undefined:
  "((\<forall>v. FlushIntervalMs (Some v) \<notin> set es) \<longrightarrow>
      flushIntervalMs (foldl (\<lambda>c e. configure_entry e c) c es) = flushIntervalMs c) \<and>
   ((\<forall>v. MaxBatchSize (Some v) \<notin> set es) \<longrightarrow>
      maxBatchSize (foldl (\<lambda>c e. configure_entry e c) c es) = maxBatchSize c) \<and>
   ((\<forall>v. FlushThreshold (Some v) \<notin> set es) \<longrightarrow>
      flushThreshold (foldl (\<lambda>c e. configure_entry e c) c es) = flushThreshold c) \<and>
   ((\<forall>v. StrictFlush (Some v) \<notin> set es) \<longrightarrow>
      strictFlush (foldl (\<lambda>c e. configure_entry e c) c es) = strictFlush c) \<and>
   ((\<forall>v. Logger (Some v) \<notin> set es) \<longrightarrow>
      logger (foldl (\<lambda>c e. configure_entry e c) c es) = logger c)"
proof (induction es arbitrary: c)
  case Nil
  show ?case by simp
next
  case (Cons e es)
  show ?case using Cons.IH [of "configure_entry e c"]
    by (cases e) (auto split: option.splits)
qed

lemma fold_defined:
  "distinct (map key_of es) \<Longrightarrow>
   (FlushIntervalMs (Some i) \<in> set es \<longrightarrow>
      flushIntervalMs (foldl (\<lambda>c e. configure_entry e c) c es) = Some i) \<and>
   (MaxBatchSize (Some m) \<in> set es \<longrightarrow>
      maxBatchSize (foldl (\<lambda>c e. configure_entry e c) c es) = m) \<and>
   (FlushThreshold (Some t) \<in> set es \<longrightarrow>
      flushThreshold (foldl (\<lambda>c e. configure_entry e c) c es) = Some t) \<and>
   (StrictFlush (Some b) \<in> set es \<longrightarrow>
      strictFlush (foldl (\<lambda>c e. configure_entry e c) c es) = Some b) \<and>
   (Logger (Some l) \<in> set es \<longrightarrow>
      logger (foldl (\<lambda>c e. configure_entry e c) c es) = Some l)"
proof (induction es arbitrary: c)
  case Nil
  show ?case by simp
next
  case (Cons e es)
  from Cons.prems have d: "distinct (map key_of es)" and k: "key_of e \<notin> key_of ` set es"
    by auto
  note IH = Cons.IH [OF d, of "configure_entry e c"]
  note keep = fold_keep [of es "configure_entry e c"]
  show ?case
  proof (cases e)
    case (FlushIntervalMs v)
    with k have "KFlushIntervalMs \<notin> key_of ` set es" by simp
    then have "\<forall>v. FlushIntervalMs v \<notin> set es" by force
    with FlushIntervalMs IH keep k show ?thesis by (auto split: option.splits)
  next
    case (MaxBatchSize v)
    with k have "KMaxBatchSize \<notin> key_of ` set es" by simp
    then have "\<forall>v. MaxBatchSize v \<notin> set es" by force
    with MaxBatchSize IH keep k show ?thesis by (auto split: option.splits)
  next
    case (FlushThreshold v)
    with k have "KFlushThreshold \<notin> key_of ` set es" by simp
    then have "\<forall>v. FlushThreshold v \<notin> set es" by force
    with FlushThreshold IH keep k show ?thesis by (auto split: option.splits)
  next
    case (StrictFlush v)
    with k have "KStrictFlush \<notin> key_of ` set es" by simp
    then have "\<forall>v. StrictFlush v \<notin> set es" by force
    with StrictFlush IH keep k show ?thesis by (auto split: option.splits)
  next
    case (Logger v)
    with k have "KLogger \<notin> key_of ` set es" by simp
    then have "\<forall>v. Logger v \<notin> set es" by force
    with Logger IH keep k show ?thesis by (auto split: option.splits)
  qed
qed

text \<open>
  Claim C9 (configure frame).  For the entries of a partial configuration (an object has
  each key once): a key with a defined value overwrites the stored value of that key, a
  key that is absent or \<open>undefined\<close> leaves the stored value as it was, and
  \<open>configure\<close> changes nothing but the configuration: the buffer, the flags, the
  timer, the suspended calls and the subscribers stay, and nothing is published.
\<close>

theorem configure_frame:
  assumes "distinct (map key_of es)"
  shows
   "(FlushIntervalMs (Some i) \<in> set es \<longrightarrow> flushIntervalMs (config (configure es s)) = Some i) \<and>
    (MaxBatchSize (Some m) \<in> set es \<longrightarrow> maxBatchSize (config (configure es s)) = m) \<and>
    (FlushThreshold (Some t) \<in> set es \<longrightarrow> flushThreshold (config (configure es s)) = Some t) \<and>
    (StrictFlush (Some b) \<in> set es \<longrightarrow> strictFlush (config (configure es s)) = Some b) \<and>
    (Logger (Some l) \<in> set es \<longrightarrow> logger (config (configure es s)) = Some l) \<and>
    ((\<forall>v. FlushIntervalMs (Some v) \<notin> set es) \<longrightarrow>
       flushIntervalMs (config (configure es s)) = flushIntervalMs (config s)) \<and>
    ((\<forall>v. MaxBatchSize (Some v) \<notin> set es) \<longrightarrow>
       maxBatchSize (config (configure es s)) = maxBatchSize (config s)) \<and>
    ((\<forall>v. FlushThreshold (Some v) \<notin> set es) \<longrightarrow>
       flushThreshold (config (configure es s)) = flushThreshold (config s)) \<and>
    ((\<forall>v. StrictFlush (Some v) \<notin> set es) \<longrightarrow>
       strictFlush (config (configure es s)) = strictFlush (config s)) \<and>
    ((\<forall>v. Logger (Some v) \<notin> set es) \<longrightarrow>
       logger (config (configure es s)) = logger (config s)) \<and>
    configure es s = s\<lparr>config := config (configure es s)\<rparr> \<and>
    items (configure es s) = items s \<and>
    running (configure es s) = running s \<and>
    flushing (configure es s) = flushing s \<and>
    flushTimer (configure es s) = flushTimer s \<and>
    armed (configure es s) = armed s \<and>
    tasks (configure es s) = tasks s \<and>
    pubsub (configure es s) = pubsub s \<and>
    trace (configure es s) = trace s"
  using fold_defined [OF assms, where c = "config s" and i = i and m = m and t = t and b = b and l = l]
    fold_undefined [where es = es and c = "config s"]
  by (simp add: configure_def)

theorem configure_frame_witness:
  "distinct (map key_of [FlushThreshold (Some 3), MaxBatchSize None, StrictFlush (Some True)]) \<and>
   flushThreshold (config (configure [FlushThreshold (Some 3), MaxBatchSize None, StrictFlush (Some True)]
      (initial (\<lambda>_. Pending) :: (nat, nat) BatchFlusher))) = Some 3 \<and>
   strictFlush (config (configure [FlushThreshold (Some 3), MaxBatchSize None, StrictFlush (Some True)]
      (initial (\<lambda>_. Pending) :: (nat, nat) BatchFlusher))) = Some True \<and>
   maxBatchSize (config (configure [FlushThreshold (Some 3), MaxBatchSize None, StrictFlush (Some True)]
      (initial (\<lambda>_. Pending) :: (nat, nat) BatchFlusher))) = 100 \<and>
   flushIntervalMs (config (configure [FlushThreshold (Some 3), MaxBatchSize None, StrictFlush (Some True)]
      (initial (\<lambda>_. Pending) :: (nat, nat) BatchFlusher))) = Some 1000 \<and>
   trace (configure [FlushThreshold (Some 3), MaxBatchSize None, StrictFlush (Some True)]
      (initial (\<lambda>_. Pending) :: (nat, nat) BatchFlusher)) = []"
  using configure_frame [where es = "[FlushThreshold (Some 3), MaxBatchSize None, StrictFlush (Some True)]"
      and t = 3 and b = True and s = "initial (\<lambda>_. Pending) :: (nat, nat) BatchFlusher"]
  by (simp add: initial_def)

section \<open>add and the safety cap\<close>

lemma buffered_frame [simp]:
  "config (buffered x s) = config s" "flusher (buffered x s) = flusher s"
  "running (buffered x s) = running s" "flushing (buffered x s) = flushing s"
  "pubsub (buffered x s) = pubsub s" "tasks (buffered x s) = tasks s"
  "next_task (buffered x s) = next_task s" "armed (buffered x s) = armed s"
  "flushTimer (buffered x s) = flushTimer s" "next_timer (buffered x s) = next_timer s"
  by (simp_all add: buffered_def prim_defs Let_def)

lemma items_buffered:
  "items (buffered x s) =
     (if int (length (items s)) + 1 > maxBatchSize (config s)
      then slice (items s @ [x]) (- maxBatchSize (config s)) else items s @ [x])"
  by (simp add: buffered_def prim_defs Let_def)

lemma items_buffered_pos:
  "0 < maxBatchSize (config s) \<Longrightarrow>
   items (buffered x s) = drop (length (items s) + 1 - nat (maxBatchSize (config s))) (items s @ [x])"
  by (simp add: items_buffered slice_neg)

lemma trace_buffered:
  "trace (buffered x s) =
     trace s @ [Debug (DAdd (length (items s) + 1))] @
     (if int (length (items s)) + 1 > maxBatchSize (config s)
      then [Debug (DCapApplied (length (items (buffered x s))))] else []) @
     map (\<lambda>cb. Invoke cb \<lparr>size' = length (items (buffered x s)), isRunning = running s,
            isFlushing = flushing s\<rparr>) (pubsub s)"
  by (simp add: buffered_def prim_defs Let_def)

lemma add_eq:
  "add x s =
     (if truthy (flushThreshold (config s)) \<and>
         the (flushThreshold (config s)) \<le> int (length (items (buffered x s)))
      then flush ByThreshold (debug (DThresholdReached (the (flushThreshold (config s)))) (buffered x s))
      else buffered x s)"
proof -
  have "add x s =
     (let s4 = buffered x s; threshold = flushThreshold (config s4)
      in if truthy threshold \<and> int (length (items s4)) \<ge> the threshold
         then doFlush ByThreshold (debug (DThresholdReached (the threshold)) s4)
         else s4)"
    unfolding add_def buffered_def Let_def by (rule refl)
  then show ?thesis by (simp add: Let_def doFlush_def)
qed

lemma config_flush [simp]: "config (flush org s) = config s"
  by (simp add: flush_defs prim_defs Let_def split: origin.splits flusher_call.splits)

lemma items_flush [simp]: "items (flush org s) = []"
  by (simp add: flush_defs prim_defs Let_def split: origin.splits flusher_call.splits)

lemma config_add [simp]: "config (add x s) = config s"
  by (simp add: add_eq)

lemma add_plain: "\<not> truthy (flushThreshold (config s)) \<Longrightarrow> add x s = buffered x s"
  by (simp add: add_eq)

lemma items_add_plain:
  "\<not> truthy (flushThreshold (config s)) \<Longrightarrow> 0 < maxBatchSize (config s) \<Longrightarrow>
   items (add x s) = drop (length (items s @ [x]) - nat (maxBatchSize (config s))) (items s @ [x])"
  by (simp add: add_plain items_buffered_pos)

lemma length_items_add:
  assumes "0 < maxBatchSize (config s)"
  shows "int (length (items (add x s))) \<le> maxBatchSize (config s)"
proof -
  have "int (length (items (buffered x s))) \<le> maxBatchSize (config s)"
    using assms by (simp add: items_buffered_pos)
  then show ?thesis using assms by (simp add: add_eq)
qed

lemma config_run_adds [simp]: "config (run s (map Add xs)) = config s"
  by (induction xs arbitrary: s) simp_all

lemma length_items_adds:
  "0 < maxBatchSize (config s) \<Longrightarrow> xs \<noteq> [] \<Longrightarrow>
   int (length (items (run s (map Add xs)))) \<le> maxBatchSize (config s)"
proof (induction xs arbitrary: s rule: rev_induct)
  case Nil
  then show ?case by simp
next
  case (snoc x xs)
  have "run s (map Add (xs @ [x])) = add x (run s (map Add xs))" by simp
  moreover have "0 < maxBatchSize (config (run s (map Add xs)))" using snoc.prems by simp
  ultimately show ?case using length_items_add [of "run s (map Add xs)" x] by simp
qed

lemma drop_recent:
  "drop (length (drop (length ys - c) ys @ zs) - c) (drop (length ys - c) ys @ zs)
   = drop (length (ys @ zs) - c) (ys @ zs)"
  by (cases "length ys \<le> c") (auto simp: add.commute)

lemma items_adds_plain:
  assumes "\<not> truthy (flushThreshold (config s))" and "0 < maxBatchSize (config s)"
    and "int (length (items s)) \<le> maxBatchSize (config s)"
  shows "items (run s (map Add xs)) =
           drop (length (items s @ xs) - nat (maxBatchSize (config s))) (items s @ xs)
         \<and> tasks (run s (map Add xs)) = tasks s
         \<and> flusher_calls (trace (run s (map Add xs))) = flusher_calls (trace s)"
  using assms
proof (induction xs arbitrary: s)
  case Nil
  then show ?case by simp
next
  case (Cons x xs)
  let ?c = "nat (maxBatchSize (config s))"
  have i: "items (add x s) = drop (length (items s @ [x]) - ?c) (items s @ [x])"
    using Cons.prems by (simp add: items_add_plain)
  have l: "int (length (items (add x s))) \<le> maxBatchSize (config (add x s))"
    using Cons.prems length_items_add [of s x] by simp
  have "items (run (add x s) (map Add xs)) =
          drop (length (items (add x s) @ xs) - ?c) (items (add x s) @ xs)
        \<and> tasks (run (add x s) (map Add xs)) = tasks (add x s)
        \<and> flusher_calls (trace (run (add x s) (map Add xs))) = flusher_calls (trace (add x s))"
    using Cons.IH [of "add x s"] Cons.prems l by simp
  moreover have "tasks (add x s) = tasks s" "flusher_calls (trace (add x s)) = flusher_calls (trace s)"
    using Cons.prems by (simp_all add: add_plain trace_buffered)
  ultimately show ?case
    using drop_recent [of "items s @ [x]" ?c xs] Cons.prems
    by (simp add: i)
qed

text \<open>
  Claim C1 (cap invariant), amended.  With a positive \<open>maxBatchSize\<close>, after every
  \<open>add\<close> of a sequence of \<open>add\<close> calls the buffer holds at most \<open>maxBatchSize\<close>
  items.  When no count threshold is configured (\<open>flushThreshold\<close> absent or 0) and the
  buffer started within the cap, the buffer is exactly the last \<open>maxBatchSize\<close> items of
  what it held followed by the added items, in their order; no call is suspended and
  the flush callback is not called, so the truncation triggers no flush.
\<close>

theorem add_cap_invariant:
  assumes "0 < maxBatchSize (config s)"
  shows "(xs \<noteq> [] \<longrightarrow> int (length (items (run s (map Add xs)))) \<le> maxBatchSize (config s)) \<and>
         (\<not> truthy (flushThreshold (config s)) \<and> int (length (items s)) \<le> maxBatchSize (config s) \<longrightarrow>
            items (run s (map Add xs)) =
              drop (length (items s @ xs) - nat (maxBatchSize (config s))) (items s @ xs) \<and>
            tasks (run s (map Add xs)) = tasks s \<and>
            flusher_calls (trace (run s (map Add xs))) = flusher_calls (trace s))"
  using assms length_items_adds [of s xs] items_adds_plain [of s xs] by blast

theorem add_cap_invariant_witness:
  "0 < maxBatchSize (config interval_batch) \<and> ''abcde'' \<noteq> [] \<and>
   \<not> truthy (flushThreshold (config interval_batch)) \<and>
   int (length (items interval_batch)) \<le> maxBatchSize (config interval_batch) \<and>
   int (length (items (run interval_batch (map Add ''abcde'')))) \<le> 4 \<and>
   items (run interval_batch (map Add ''abcde'')) = ''bcde'' \<and>
   flusher_calls (trace (run interval_batch (map Add ''abcde''))) = []"
proof -
  have h: "0 < maxBatchSize (config interval_batch)"
    and t: "\<not> truthy (flushThreshold (config interval_batch))"
    and l: "int (length (items interval_batch)) \<le> maxBatchSize (config interval_batch)"
    and c: "maxBatchSize (config interval_batch) = 4"
    and i: "items interval_batch = []" "flusher_calls (trace interval_batch) = []"
    by code_simp+
  show ?thesis using add_cap_invariant [OF h, of "''abcde''"] h t l c i by simp
qed

text \<open>
  The claim as it is written fails when a count threshold is configured: with
  \<open>maxBatchSize = 4\<close> and \<open>flushThreshold = 2\<close> the second \<open>add\<close> starts a flush, which
  clears the buffer before \<open>add\<close> returns, so the buffer is empty and not the two
  most recently added items.
\<close>

theorem add_cap_invariant_counterexample:
  "0 < maxBatchSize (config (new_BatchFlusher (\<lambda>_. Pending)
        (Some [FlushThreshold (Some 2), MaxBatchSize (Some 4)]) True :: (char, string) BatchFlusher)) \<and>
   items (run (new_BatchFlusher (\<lambda>_. Pending)
        (Some [FlushThreshold (Some 2), MaxBatchSize (Some 4)]) True :: (char, string) BatchFlusher)
      (map Add ''ab'')) \<noteq> drop (length ''ab'' - nat 4) ''ab''"
  by code_simp

section \<open>flush: snapshot and delivery\<close>

lemma flusher_flush [simp]: "flusher (flush org s) = flusher s"
  by (simp add: flush_defs prim_defs Let_def split: origin.splits flusher_call.splits)

lemma flush_calls:
  "flusher_calls (trace (flush org s)) =
     flusher_calls (trace s) @ (if items s = [] then [] else [items s])"
  by (simp add: flush_defs prim_defs Let_def split: origin.splits flusher_call.splits sum.splits)

lemma flush_delivery [simp]:
  "concat (flusher_calls (trace (flush org s))) = concat (flusher_calls (trace s)) @ items s"
  by (simp add: flush_calls)

lemma flush_settled_keeps [simp]:
  "items (flush_settled tid org r s) = items s"
  "config (flush_settled tid org r s) = config s"
  "flushing (flush_settled tid org r s) = flushing s"
  "flusher_calls (trace (flush_settled tid org r s)) = flusher_calls (trace s)"
  by (cases org; simp add: flush_settled_def)+

lemma flush_finally_keeps [simp]:
  "items (flush_finally tid org r s) = items s"
  "config (flush_finally tid org r s) = config s"
  "flushing (flush_finally tid org r s) = False"
  "flusher_calls (trace (flush_finally tid org r s)) = flusher_calls (trace s)"
  by (cases r; simp add: flush_finally_def Let_def)+

lemma take_task_frame [simp]:
  "config (take_task tid s) = config s" "flusher (take_task tid s) = flusher s"
  "items (take_task tid s) = items s"
  "running (take_task tid s) = running s" "flushing (take_task tid s) = flushing s"
  "pubsub (take_task tid s) = pubsub s" "armed (take_task tid s) = armed s"
  "next_task (take_task tid s) = next_task s"
  "flushTimer (take_task tid s) = flushTimer s" "next_timer (take_task tid s) = next_timer s"
  "trace (take_task tid s) = trace s"
  "tasks (take_task tid s) = filter (\<lambda>t. fst t \<noteq> tid) (tasks s)"
  by (simp_all add: take_task_def)

lemma settle_cases:
  "(\<exists>org. map_of (tasks s) tid = Some (org, AwaitFlusher) \<and>
       settle tid r s = flush_finally tid org r (take_task tid s)) \<or>
   settle tid r s = s"
  by (simp add: settle_def split: option.splits stage.splits)

lemma settle_keeps [simp]:
  "items (settle tid r s) = items s"
  "config (settle tid r s) = config s"
  "flusher_calls (trace (settle tid r s)) = flusher_calls (trace s)"
  using settle_cases [of s tid r] by auto

lemma scheduleFlush_frame [simp]:
  "config (scheduleFlush s) = config s" "flusher (scheduleFlush s) = flusher s"
  "items (scheduleFlush s) = items s"
  "running (scheduleFlush s) = running s" "flushing (scheduleFlush s) = flushing s"
  "pubsub (scheduleFlush s) = pubsub s" "tasks (scheduleFlush s) = tasks s"
  "next_task (scheduleFlush s) = next_task s" "trace (scheduleFlush s) = trace s"
  by (simp_all add: scheduleFlush_def)

lemma stop_frame [simp]:
  "config (stop s) = config s" "flusher (stop s) = flusher s" "items (stop s) = items s"
  "running (stop s) = False" "flushing (stop s) = flushing s"
  "pubsub (stop s) = pubsub s" "tasks (stop s) = tasks s"
  "next_task (stop s) = next_task s"
  "flushTimer (stop s) = flushTimer s" "next_timer (stop s) = next_timer s"
  "armed (stop s) = (case flushTimer s of None \<Rightarrow> armed s | Some t \<Rightarrow> removeAll t (armed s))"
  "trace (stop s) =
     trace s @ [Debug DStop] @
     map (\<lambda>cb. Invoke cb \<lparr>size' = length (items s), isRunning = False, isFlushing = flushing s\<rparr>) (pubsub s)"
  by (simp_all add: stop_def Let_def getState_def split: option.splits)

lemma start_frame [simp]:
  "config (start s) = config s" "flusher (start s) = flusher s" "items (start s) = items s"
  "running (start s) = True" "flushing (start s) = flushing s"
  "pubsub (start s) = pubsub s" "tasks (start s) = tasks s"
  "next_task (start s) = next_task s"
  "trace (start s) =
     trace s @ [Debug DStart] @
     map (\<lambda>cb. Invoke cb \<lparr>size' = length (items s), isRunning = True, isFlushing = flushing s\<rparr>) (pubsub s)"
  by (simp_all add: start_def getState_def)

lemma resume_keeps [simp]:
  "items (resume tid s) = items s"
  "config (resume tid s) = config s"
  "flusher_calls (trace (resume tid s)) = flusher_calls (trace s)"
  "flushing (resume tid s) = flushing s"
  by (simp_all add: resume_def doFlush_resume_def Let_def
      split: option.splits stage.splits sum.splits origin.splits prod.splits)

lemma flusher_calls_buffered [simp]:
  "flusher_calls (trace (buffered x s)) = flusher_calls (trace s)"
  by (simp add: trace_buffered)

lemma add_delivery:
  assumes "int (length (items s)) + 1 \<le> maxBatchSize (config s)"
  shows "concat (flusher_calls (trace (add x s))) @ items (add x s) =
         concat (flusher_calls (trace s)) @ items s @ [x]"
    and "length (items (add x s)) \<le> length (items s) + 1"
  using assms by (simp_all add: add_eq items_buffered)

lemma step_delivery:
  assumes "a \<noteq> Reset" and "\<forall>es. a \<noteq> Configure es"
    and "int (length (items s)) + int (length (added [a])) \<le> maxBatchSize (config s)"
  shows "concat (flusher_calls (trace (exec a s))) @ items (exec a s) =
           concat (flusher_calls (trace s)) @ items s @ added [a] \<and>
         config (exec a s) = config s \<and>
         length (items (exec a s)) \<le> length (items s) + length (added [a])"
proof (cases a)
  case (Add x)
  then show ?thesis using assms add_delivery [of s x] by simp
next
  case (Fire t)
  then show ?thesis by (simp add: fire_def doFlush_def)
next
  case Drain
  then show ?thesis by (simp add: drain_def)
next
  case (Subscribe cb)
  then show ?thesis by (simp add: subscribe_def pubsub_subscribe_def)
next
  case (Unsubscribe cb)
  then show ?thesis by (simp add: unsubscribe_def)
qed (use assms in simp_all)

lemma added_append [simp]: "added (as @ bs) = added as @ added bs"
  by (induction as rule: added.induct) simp_all

lemma run_delivery:
  assumes "Reset \<notin> set as" and "\<forall>es. Configure es \<notin> set as"
    and "int (length (items s)) + int (length (added as)) \<le> maxBatchSize (config s)"
  shows "concat (flusher_calls (trace (run s as))) @ items (run s as) =
           concat (flusher_calls (trace s)) @ items s @ added as"
  using assms
proof (induction as arbitrary: s)
  case Nil
  show ?case by simp
next
  case (Cons a as)
  have l: "length (added (a # as)) = length (added [a]) + length (added as)"
    using added_append [of "[a]" as] by simp
  have st: "concat (flusher_calls (trace (exec a s))) @ items (exec a s) =
           concat (flusher_calls (trace s)) @ items s @ added [a] \<and>
         config (exec a s) = config s \<and>
         length (items (exec a s)) \<le> length (items s) + length (added [a])"
    using Cons.prems l by (intro step_delivery) auto
  have "concat (flusher_calls (trace (run (exec a s) as))) @ items (run (exec a s) as) =
           concat (flusher_calls (trace (exec a s))) @ items (exec a s) @ added as"
    using Cons.prems st l by (intro Cons.IH) auto
  then show ?case using st added_append [of "[a]" as] by simp
qed

lemma flush_in_flight:
  assumes "items s \<noteq> []" "flusher s (items s) = Pending" "wf_tasks s"
    "\<not> truthy (flushThreshold (config s))" "0 < maxBatchSize (config s)"
  shows "map_of (tasks (run (flush org s) (map Add ys))) (next_task s) = Some (org, AwaitFlusher)"
    and "items (run (flush org s) (map Add ys)) = drop (length ys - nat (maxBatchSize (config s))) ys"
    and "flusher_calls (trace (run (flush org s) (map Add ys))) = flusher_calls (trace s) @ [items s]"
proof -
  have "\<not> truthy (flushThreshold (config (flush org s)))" "0 < maxBatchSize (config (flush org s))"
    "int (length (items (flush org s))) \<le> maxBatchSize (config (flush org s))"
    using assms by simp_all
  note * = items_adds_plain [OF this, of ys]
  have t: "tasks (flush org s) = tasks s @ [(next_task s, org, AwaitFlusher)]"
    using assms by (simp add: flush_pending)
  have "map_of (tasks s @ [(next_task s, org, AwaitFlusher)]) (next_task s) = Some (org, AwaitFlusher)"
    using assms(3) unfolding wf_tasks_def by (rule map_of_fresh)
  then show "map_of (tasks (run (flush org s) (map Add ys))) (next_task s) = Some (org, AwaitFlusher)"
    using * t by (simp del: map_of_append)
  show "items (run (flush org s) (map Add ys)) = drop (length ys - nat (maxBatchSize (config s))) ys"
    using * by simp
  show "flusher_calls (trace (run (flush org s) (map Add ys))) = flusher_calls (trace s) @ [items s]"
    using * assms(1) by (simp add: flush_calls)
qed

text \<open>
  Claim C2 (flush snapshot, no double delivery).  A flush of a non-empty buffer empties
  the buffer and calls the flush callback with exactly the items the buffer held, in
  their order; the buffer is already empty when the subscribers are told and when the
  callback is called.  Items added while the callback is in flight are not part of that
  call: they are in the buffer when the callback settles and they are the batch of the
  next flush.  Over any interleaving of actions that neither resets nor reconfigures,
  while the cap is not exceeded, the batches delivered so far followed by the buffer are
  exactly the items added, each once and in order.
\<close>

theorem flush_snapshot:
  assumes "items s \<noteq> []"
  shows
   "items (flush org s) = [] \<and>
    flusher_calls (trace (flush org s)) = flusher_calls (trace s) @ [items s] \<and>
    (flusher s (items s) = Pending \<longrightarrow>
       trace (flush org s) =
         trace s @
         map (\<lambda>cb. Invoke cb \<lparr>size' = 0, isRunning = running s, isFlushing = True\<rparr>) (pubsub s) @
         [Debug (DFlushing (length (items s))), FlusherCalled (next_task s) (items s)] \<and>
       tasks (flush org s) = tasks s @ [(next_task s, org, AwaitFlusher)]) \<and>
    (flusher s (items s) = Pending \<and> wf_tasks s \<and>
     \<not> truthy (flushThreshold (config s)) \<and> 0 < maxBatchSize (config s) \<longrightarrow>
       map_of (tasks (run (flush org s) (map Add ys))) (next_task s) = Some (org, AwaitFlusher) \<and>
       items (settle (next_task s) r (run (flush org s) (map Add ys))) =
         drop (length ys - nat (maxBatchSize (config s))) ys \<and>
       flusher_calls (trace (settle (next_task s) r (run (flush org s) (map Add ys)))) =
         flusher_calls (trace s) @ [items s] \<and>
       flusher_calls (trace (flush org' (settle (next_task s) r (run (flush org s) (map Add ys))))) =
         flusher_calls (trace s) @ [items s] @
         (if ys = [] then [] else [drop (length ys - nat (maxBatchSize (config s))) ys])) \<and>
    (Reset \<notin> set as \<and> (\<forall>es. Configure es \<notin> set as) \<and>
     int (length (items s)) + int (length (added as)) \<le> maxBatchSize (config s) \<longrightarrow>
       concat (flusher_calls (trace (run s as))) @ items (run s as) =
       concat (flusher_calls (trace s)) @ items s @ added as)"
proof (intro conjI impI)
  show "items (flush org s) = []" by simp
  show "flusher_calls (trace (flush org s)) = flusher_calls (trace s) @ [items s]"
    using assms by (simp add: flush_calls)
next
  assume "flusher s (items s) = Pending"
  then show "trace (flush org s) =
         trace s @
         map (\<lambda>cb. Invoke cb \<lparr>size' = 0, isRunning = running s, isFlushing = True\<rparr>) (pubsub s) @
         [Debug (DFlushing (length (items s))), FlusherCalled (next_task s) (items s)]"
    and "tasks (flush org s) = tasks s @ [(next_task s, org, AwaitFlusher)]"
    using assms by (simp_all add: flush_pending)
next
  assume a: "flusher s (items s) = Pending \<and> wf_tasks s \<and>
     \<not> truthy (flushThreshold (config s)) \<and> 0 < maxBatchSize (config s)"
  note f = flush_in_flight [OF assms, of org ys]
  show "map_of (tasks (run (flush org s) (map Add ys))) (next_task s) = Some (org, AwaitFlusher)"
    using a f by simp
  show "items (settle (next_task s) r (run (flush org s) (map Add ys))) =
         drop (length ys - nat (maxBatchSize (config s))) ys"
    using a f by simp
  show "flusher_calls (trace (settle (next_task s) r (run (flush org s) (map Add ys)))) =
         flusher_calls (trace s) @ [items s]"
    using a f by simp
  show "flusher_calls (trace (flush org' (settle (next_task s) r (run (flush org s) (map Add ys))))) =
         flusher_calls (trace s) @ [items s] @
         (if ys = [] then [] else [drop (length ys - nat (maxBatchSize (config s))) ys])"
  proof -
    have "0 < nat (maxBatchSize (config s))" using a by simp
    then have "ys \<noteq> [] \<Longrightarrow> \<not> length ys \<le> length ys - nat (maxBatchSize (config s))"
      by (cases ys) auto
    then show ?thesis using a f by (auto simp: flush_calls)
  qed
next
  assume "Reset \<notin> set as \<and> (\<forall>es. Configure es \<notin> set as) \<and>
     int (length (items s)) + int (length (added as)) \<le> maxBatchSize (config s)"
  then show "concat (flusher_calls (trace (run s as))) @ items (run s as) =
       concat (flusher_calls (trace s)) @ items s @ added as"
    using run_delivery [of as s] by simp
qed

theorem flush_snapshot_witness:
  "items (run manual_batch (map Add ''ab'')) \<noteq> [] \<and>
   flusher (run manual_batch (map Add ''ab'')) (items (run manual_batch (map Add ''ab''))) = Pending \<and>
   wf_tasks (run manual_batch (map Add ''ab'')) \<and>
   \<not> truthy (flushThreshold (config (run manual_batch (map Add ''ab'')))) \<and>
   0 < maxBatchSize (config (run manual_batch (map Add ''ab''))) \<and>
   Reset \<notin> set [Flush, Add CHR ''c'', Settle 0 (Inr True), Flush :: (char, string) action] \<and>
   (\<forall>es. Configure es \<notin> set [Flush, Add CHR ''c'', Settle 0 (Inr True), Flush :: (char, string) action]) \<and>
   int (length (items (run manual_batch (map Add ''ab'')))) +
     int (length (added [Flush, Add CHR ''c'', Settle 0 (Inr True), Flush :: (char, string) action]))
     \<le> maxBatchSize (config (run manual_batch (map Add ''ab''))) \<and>
   items (flush ByCaller (run manual_batch (map Add ''ab''))) = [] \<and>
   flusher_calls (trace (flush ByCaller (run manual_batch (map Add ''ab'')))) = [''ab''] \<and>
   items (settle 0 (Inr True) (run (flush ByCaller (run manual_batch (map Add ''ab''))) (map Add ''c''))) = ''c'' \<and>
   flusher_calls (trace (flush ByCaller
      (settle 0 (Inr True) (run (flush ByCaller (run manual_batch (map Add ''ab''))) (map Add ''c''))))) =
     [''ab'', ''c''] \<and>
   concat (flusher_calls (trace (run (run manual_batch (map Add ''ab''))
        [Flush, Add CHR ''c'', Settle 0 (Inr True), Flush]))) @
     items (run (run manual_batch (map Add ''ab'')) [Flush, Add CHR ''c'', Settle 0 (Inr True), Flush]) = ''abc''"
proof -
  let ?s = "run manual_batch (map Add ''ab'')"
  let ?as = "[Flush, Add CHR ''c'', Settle 0 (Inr True), Flush] :: (char, string) action list"
  have h: "items ?s \<noteq> []" by code_simp
  have p: "flusher ?s (items ?s) = Pending" "wf_tasks ?s"
    "\<not> truthy (flushThreshold (config ?s))" "0 < maxBatchSize (config ?s)" "Reset \<notin> set ?as"
    "int (length (items ?s)) + int (length (added ?as)) \<le> maxBatchSize (config ?s)"
    by code_simp+
  have q: "\<forall>es. Configure es \<notin> set ?as" by simp
  have v: "items ?s = ''ab''" "next_task ?s = 0" "flusher_calls (trace ?s) = []"
    "maxBatchSize (config ?s) = 100"
    by code_simp+
  from flush_snapshot [OF h, of ByCaller "''c''" "Inr True" ByCaller ?as] p q
  have "items (flush ByCaller ?s) = [] \<and>
    flusher_calls (trace (flush ByCaller ?s)) = flusher_calls (trace ?s) @ [items ?s] \<and>
    items (settle (next_task ?s) (Inr True) (run (flush ByCaller ?s) (map Add ''c''))) =
         drop (length ''c'' - nat (maxBatchSize (config ?s))) ''c'' \<and>
    flusher_calls (trace (flush ByCaller (settle (next_task ?s) (Inr True) (run (flush ByCaller ?s) (map Add ''c''))))) =
         flusher_calls (trace ?s) @ [items ?s] @
         (if ''c'' = [] then [] else [drop (length ''c'' - nat (maxBatchSize (config ?s))) ''c'']) \<and>
    concat (flusher_calls (trace (run ?s ?as))) @ items (run ?s ?as) =
       concat (flusher_calls (trace ?s)) @ items ?s @ added ?as"
    by blast
  then show ?thesis using h p q unfolding v by simp
qed

section \<open>flush called from outside\<close>

lemma settle_caller:
  assumes "map_of (tasks s) tid = Some (ByCaller, AwaitFlusher)"
  shows "settle tid r s =
     s\<lparr>tasks := filter (\<lambda>t. fst t \<noteq> tid) (tasks s), flushing := False,
       trace := trace s @ (case r of Inr b \<Rightarrow> [Debug (DFlushComplete b)] | Inl e \<Rightarrow> []) @
         map (\<lambda>cb. Invoke cb \<lparr>size' = length (items s), isRunning = running s, isFlushing = False\<rparr>)
           (pubsub s) @
         [Settled tid r]\<rparr>"
  using assms by (simp add: settle_found flush_settled_def emit_def)

text \<open>
  Claim C4 (error contract of an explicit flush).  When the promise of the flush callback
  of a call of \<open>flush()\<close> from outside settles with \<open>r\<close>, in whatever state the
  accumulator is by then, the promise of \<open>flush()\<close> is settled with the same \<open>r\<close>: a
  rejection is passed on, a result is returned as it is.  Before that \<open>flushing\<close> is set
  to false and the subscribers are notified; the buffer is left as it is, so the items
  of the failed batch are not put back.  The statement is about every state, so about
  every value of \<open>strictFlush\<close>, which this path never reads.  The same holds when
  the callback throws before it returns a promise.
\<close>

theorem flush_explicit_contract:
  "(map_of (tasks s) tid = Some (ByCaller, AwaitFlusher) \<longrightarrow>
      trace (settle tid r s) =
        trace s @ (case r of Inr b \<Rightarrow> [Debug (DFlushComplete b)] | Inl e \<Rightarrow> []) @
        map (\<lambda>cb. Invoke cb \<lparr>size' = length (items s), isRunning = running s, isFlushing = False\<rparr>)
          (pubsub s) @
        [Settled tid r] \<and>
      flushing (settle tid r s) = False \<and>
      items (settle tid r s) = items s \<and>
      map_of (tasks (settle tid r s)) tid = None) \<and>
   (items s \<noteq> [] \<and> flusher s (items s) = Pending \<and> wf_tasks s \<longrightarrow>
      trace (settle (next_task s) r (flush ByCaller s)) =
        trace (flush ByCaller s) @
        (case r of Inr b \<Rightarrow> [Debug (DFlushComplete b)] | Inl e \<Rightarrow> []) @
        map (\<lambda>cb. Invoke cb \<lparr>size' = 0, isRunning = running s, isFlushing = False\<rparr>) (pubsub s) @
        [Settled (next_task s) r] \<and>
      flushing (flush ByCaller s) = True \<and>
      flushing (settle (next_task s) r (flush ByCaller s)) = False \<and>
      items (settle (next_task s) r (flush ByCaller s)) = []) \<and>
   (items s \<noteq> [] \<and> flusher s (items s) = Throws e \<longrightarrow>
      trace (flush ByCaller s) =
        trace s @
        map (\<lambda>cb. Invoke cb \<lparr>size' = 0, isRunning = running s, isFlushing = True\<rparr>) (pubsub s) @
        [Debug (DFlushing (length (items s))), FlusherCalled (next_task s) (items s)] @
        map (\<lambda>cb. Invoke cb \<lparr>size' = 0, isRunning = running s, isFlushing = False\<rparr>) (pubsub s) @
        [Settled (next_task s) (Inl e)] \<and>
      flushing (flush ByCaller s) = False \<and>
      items (flush ByCaller s) = [])"
proof (intro conjI impI)
  assume a: "map_of (tasks s) tid = Some (ByCaller, AwaitFlusher)"
  note c = settle_caller [OF a, of r]
  show "trace (settle tid r s) =
        trace s @ (case r of Inr b \<Rightarrow> [Debug (DFlushComplete b)] | Inl e \<Rightarrow> []) @
        map (\<lambda>cb. Invoke cb \<lparr>size' = length (items s), isRunning = running s, isFlushing = False\<rparr>)
          (pubsub s) @
        [Settled tid r]"
    by (simp add: c)
  show "flushing (settle tid r s) = False" by (simp add: c)
  show "items (settle tid r s) = items s" by simp
  have "map_of (filter (\<lambda>t. fst t \<noteq> tid) (tasks s)) tid = None"
    by (induction "tasks s") (auto simp: map_of_eq_None_iff)
  then show "map_of (tasks (settle tid r s)) tid = None" by (simp add: c)
next
  assume a: "items s \<noteq> [] \<and> flusher s (items s) = Pending \<and> wf_tasks s"
  then have p: "flush ByCaller s =
     s\<lparr>next_task := Suc (next_task s), items := [], flushing := True,
       trace := trace s @
         map (\<lambda>cb. Invoke cb \<lparr>size' = 0, isRunning = running s, isFlushing = True\<rparr>) (pubsub s) @
         [Debug (DFlushing (length (items s))), FlusherCalled (next_task s) (items s)],
       tasks := tasks s @ [(next_task s, ByCaller, AwaitFlusher)]\<rparr>"
    by (simp add: flush_pending)
  have "map_of (tasks s @ [(next_task s, ByCaller, AwaitFlusher)]) (next_task s) =
          Some (ByCaller, AwaitFlusher)"
    using a unfolding wf_tasks_def by (intro map_of_fresh) simp
  then have m: "map_of (tasks (flush ByCaller s)) (next_task s) = Some (ByCaller, AwaitFlusher)"
    by (simp add: p del: map_of_append)
  note c = settle_caller [OF m, of r]
  show "trace (settle (next_task s) r (flush ByCaller s)) =
        trace (flush ByCaller s) @
        (case r of Inr b \<Rightarrow> [Debug (DFlushComplete b)] | Inl e \<Rightarrow> []) @
        map (\<lambda>cb. Invoke cb \<lparr>size' = 0, isRunning = running s, isFlushing = False\<rparr>) (pubsub s) @
        [Settled (next_task s) r]"
    by (simp add: c) (simp add: p)
  show "flushing (flush ByCaller s) = True" by (simp add: p)
  show "flushing (settle (next_task s) r (flush ByCaller s)) = False" by (simp add: c)
  show "items (settle (next_task s) r (flush ByCaller s)) = []" by simp
next
  assume a: "items s \<noteq> [] \<and> flusher s (items s) = Throws e"
  then have t: "flush ByCaller s =
     flush_settled (next_task s) ByCaller (Inl e)
      (s\<lparr>next_task := Suc (next_task s), items := [], flushing := False,
       trace := trace s @
         map (\<lambda>cb. Invoke cb \<lparr>size' = 0, isRunning = running s, isFlushing = True\<rparr>) (pubsub s) @
         [Debug (DFlushing (length (items s))), FlusherCalled (next_task s) (items s)] @
         map (\<lambda>cb. Invoke cb \<lparr>size' = 0, isRunning = running s, isFlushing = False\<rparr>) (pubsub s)\<rparr>)"
    by (simp add: flush_throws)
  show "trace (flush ByCaller s) =
        trace s @
        map (\<lambda>cb. Invoke cb \<lparr>size' = 0, isRunning = running s, isFlushing = True\<rparr>) (pubsub s) @
        [Debug (DFlushing (length (items s))), FlusherCalled (next_task s) (items s)] @
        map (\<lambda>cb. Invoke cb \<lparr>size' = 0, isRunning = running s, isFlushing = False\<rparr>) (pubsub s) @
        [Settled (next_task s) (Inl e)]"
    by (simp add: t flush_settled_def emit_def)
  show "flushing (flush ByCaller s) = False" by (simp add: t flush_settled_def emit_def)
  show "items (flush ByCaller s) = []" by simp
qed

theorem flush_explicit_contract_witness:
  "map_of (tasks (run manual_batch [Subscribe 7, Add CHR ''a'', Flush, Add CHR ''b''])) 0 =
     Some (ByCaller, AwaitFlusher) \<and>
   trace (settle 0 (Inl ''boom'') (run manual_batch [Subscribe 7, Add CHR ''a'', Flush, Add CHR ''b''])) =
     trace (run manual_batch [Subscribe 7, Add CHR ''a'', Flush, Add CHR ''b'']) @
     [Invoke 7 \<lparr>size' = 1, isRunning = False, isFlushing = False\<rparr>, Settled 0 (Inl ''boom'')] \<and>
   items (run manual_batch [Subscribe 7, Add CHR ''a'']) \<noteq> [] \<and>
   flusher (run manual_batch [Subscribe 7, Add CHR ''a''])
     (items (run manual_batch [Subscribe 7, Add CHR ''a''])) = Pending \<and>
   wf_tasks (run manual_batch [Subscribe 7, Add CHR ''a'']) \<and>
   flushing (settle 0 (Inl ''boom'') (flush ByCaller (run manual_batch [Subscribe 7, Add CHR ''a'']))) = False \<and>
   items (settle 0 (Inl ''boom'') (flush ByCaller (run manual_batch [Subscribe 7, Add CHR ''a'']))) = [] \<and>
   items ((run manual_batch [Subscribe 7, Add CHR ''a''])\<lparr>flusher := \<lambda>_. Throws ''boom''\<rparr>) \<noteq> [] \<and>
   flusher ((run manual_batch [Subscribe 7, Add CHR ''a''])\<lparr>flusher := \<lambda>_. Throws ''boom''\<rparr>)
     (items ((run manual_batch [Subscribe 7, Add CHR ''a''])\<lparr>flusher := \<lambda>_. Throws ''boom''\<rparr>)) = Throws ''boom'' \<and>
   trace (flush ByCaller ((run manual_batch [Subscribe 7, Add CHR ''a''])\<lparr>flusher := \<lambda>_. Throws ''boom''\<rparr>)) =
     trace (run manual_batch [Subscribe 7, Add CHR ''a'']) @
     [Invoke 7 \<lparr>size' = 0, isRunning = False, isFlushing = True\<rparr>,
      Debug (DFlushing 1), FlusherCalled 0 ''a'',
      Invoke 7 \<lparr>size' = 0, isRunning = False, isFlushing = False\<rparr>,
      Settled 0 (Inl ''boom'')]"
proof -
  let ?u = "run manual_batch [Subscribe 7, Add CHR ''a'', Flush, Add CHR ''b'']"
  let ?s = "run manual_batch [Subscribe 7, Add CHR ''a'']"
  let ?t = "?s\<lparr>flusher := \<lambda>_. Throws ''boom''\<rparr>"
  have u: "map_of (tasks ?u) 0 = Some (ByCaller, AwaitFlusher)" by code_simp
  have uv: "items ?u = ''b''" "running ?u = False" "pubsub ?u = [7]" by code_simp+
  have s: "items ?s \<noteq> []" "flusher ?s (items ?s) = Pending" "wf_tasks ?s" by code_simp+
  have sv: "next_task ?s = 0" by code_simp
  have t: "items ?t \<noteq> []" "flusher ?t (items ?t) = Throws ''boom''" by code_simp+
  have tv: "next_task ?t = 0" "items ?t = ''a''" "running ?t = False" "pubsub ?t = [7]"
    "trace ?t = trace ?s"
    by code_simp+
  from flush_explicit_contract [of ?u 0 "Inl ''boom''"] u
  have 1: "trace (settle 0 (Inl ''boom'') ?u) =
     trace ?u @ [Invoke 7 \<lparr>size' = 1, isRunning = False, isFlushing = False\<rparr>, Settled 0 (Inl ''boom'')]"
    unfolding uv by simp
  from flush_explicit_contract [of ?s "next_task ?s" "Inl ''boom''"] s
  have 2: "flushing (settle 0 (Inl ''boom'') (flush ByCaller ?s)) = False"
    "items (settle 0 (Inl ''boom'') (flush ByCaller ?s)) = []"
    unfolding sv by simp_all
  from flush_explicit_contract [of ?t 0 "Inl ''boom''" "''boom''"] t
  have 3: "trace (flush ByCaller ?t) =
     trace ?s @
     [Invoke 7 \<lparr>size' = 0, isRunning = False, isFlushing = True\<rparr>,
      Debug (DFlushing 1), FlusherCalled 0 ''a'',
      Invoke 7 \<lparr>size' = 0, isRunning = False, isFlushing = False\<rparr>,
      Settled 0 (Inl ''boom'')]"
    unfolding tv by simp
  show ?thesis using u s t 1 2 3 by blast
qed

section \<open>Resuming suspended calls\<close>

lemma flush_settled_frame [simp]:
  "running (flush_settled tid org r s) = running s" "pubsub (flush_settled tid org r s) = pubsub s"
  "armed (flush_settled tid org r s) = armed s" "flushTimer (flush_settled tid org r s) = flushTimer s"
  "next_timer (flush_settled tid org r s) = next_timer s"
  "next_task (flush_settled tid org r s) = next_task s"
  "flusher (flush_settled tid org r s) = flusher s"
  by (cases org; simp add: flush_settled_def)+

lemma flush_finally_frame [simp]:
  "running (flush_finally tid org r s) = running s" "pubsub (flush_finally tid org r s) = pubsub s"
  "armed (flush_finally tid org r s) = armed s" "flushTimer (flush_finally tid org r s) = flushTimer s"
  "next_timer (flush_finally tid org r s) = next_timer s"
  "next_task (flush_finally tid org r s) = next_task s"
  "flusher (flush_finally tid org r s) = flusher s"
  by (cases r; simp add: flush_finally_def Let_def)+

lemma flush_frame [simp]:
  "running (flush org s) = running s" "pubsub (flush org s) = pubsub s"
  "armed (flush org s) = armed s" "flushTimer (flush org s) = flushTimer s"
  "next_timer (flush org s) = next_timer s"
  "next_task (flush org s) = Suc (next_task s)"
  by (simp_all add: flush_def Let_def split: flusher_call.splits)

lemma settle_frame [simp]:
  "running (settle tid r s) = running s" "pubsub (settle tid r s) = pubsub s"
  "armed (settle tid r s) = armed s" "flushTimer (settle tid r s) = flushTimer s"
  "next_timer (settle tid r s) = next_timer s"
  "next_task (settle tid r s) = next_task s"
  "flusher (settle tid r s) = flusher s"
  using settle_cases [of s tid r] by auto

lemma settle_internal:
  assumes "map_of (tasks s) tid = Some (org, AwaitFlusher)" "org \<noteq> ByCaller"
  shows "settle tid r s =
     s\<lparr>tasks := filter (\<lambda>t. fst t \<noteq> tid) (tasks s) @ [(tid, org, AwaitFlush r)], flushing := False,
       trace := trace s @ (case r of Inr b \<Rightarrow> [Debug (DFlushComplete b)] | Inl e \<Rightarrow> []) @
         map (\<lambda>cb. Invoke cb \<lparr>size' = length (items s), isRunning = running s, isFlushing = False\<rparr>)
           (pubsub s)\<rparr>"
  using assms by (cases org) (simp_all add: settle_found flush_settled_def)

lemma resume_threshold_failed:
  assumes "map_of (tasks s) tid = Some (ByThreshold, AwaitFlush (Inl e))"
  shows "resume tid s =
     s\<lparr>tasks := filter (\<lambda>t. fst t \<noteq> tid) (tasks s),
       trace := trace s @
         [if truthy_bool (strictFlush (config s)) then Unhandled e else Warn (logger (config s)) e]\<rparr>"
  using assms by (simp add: resume_def doFlush_resume_def take_task_def emit_def)

lemma resume_timer_failed:
  assumes "map_of (tasks s) tid = Some (ByTimer, AwaitFlush (Inl e))"
  shows "resume tid s =
     s\<lparr>tasks := filter (\<lambda>t. fst t \<noteq> tid) (tasks s) @
         [(tid, ByTimer, AwaitDoFlush (if truthy_bool (strictFlush (config s)) then Some e else None))],
       trace := trace s @
         (if truthy_bool (strictFlush (config s)) then [] else [Warn (logger (config s)) e])\<rparr>"
  using assms by (simp add: resume_def doFlush_resume_def take_task_def emit_def)

lemma resume_timer_rejected:
  assumes "map_of (tasks s) tid = Some (ByTimer, AwaitDoFlush (Some e))"
  shows "resume tid s =
     s\<lparr>tasks := filter (\<lambda>t. fst t \<noteq> tid) (tasks s), trace := trace s @ [Unhandled e]\<rparr>"
  using assms by (simp add: resume_def take_task_def emit_def)

lemma resume_timer_done:
  assumes "map_of (tasks s) tid = Some (ByTimer, AwaitDoFlush None)"
  shows "resume tid s =
     scheduleFlush (clearTimeout (flushTimer s) (s\<lparr>tasks := filter (\<lambda>t. fst t \<noteq> tid) (tasks s)\<rparr>))"
  using assms by (simp add: resume_def take_task_def Let_def)

lemma resume_drain_ok:
  assumes "map_of (tasks s) tid = Some (ByDrain, AwaitFlush (Inr b))"
  shows "resume tid s =
     emit (Settled tid (Inr b)) (stop (s\<lparr>tasks := filter (\<lambda>t. fst t \<noteq> tid) (tasks s)\<rparr>))"
  using assms by (simp add: resume_def take_task_def)

lemma resume_drain_failed:
  assumes "map_of (tasks s) tid = Some (ByDrain, AwaitFlush (Inl e))"
  shows "resume tid s =
     s\<lparr>tasks := filter (\<lambda>t. fst t \<noteq> tid) (tasks s), trace := trace s @ [Settled tid (Inl e)]\<rparr>"
  using assms by (simp add: resume_def take_task_def emit_def)

lemma map_of_flush_pending:
  assumes "items s \<noteq> []" "flusher s (items s) = Pending" "wf_tasks s"
  shows "map_of (tasks (flush org s)) (next_task s) = Some (org, AwaitFlusher)"
proof -
  have "map_of (tasks s @ [(next_task s, org, AwaitFlusher)]) (next_task s) = Some (org, AwaitFlusher)"
    using assms(3) unfolding wf_tasks_def by (rule map_of_fresh)
  then show ?thesis using assms by (simp add: flush_pending del: map_of_append)
qed

lemma map_of_settle_internal:
  assumes "map_of (tasks s) tid = Some (org, AwaitFlusher)" "org \<noteq> ByCaller"
  shows "map_of (tasks (settle tid r s)) tid = Some (org, AwaitFlush r)"
  using map_of_replaced [of tid "tasks s" "(org, AwaitFlush r)"] assms
  by (simp add: settle_internal del: map_of_append)

section \<open>add and the threshold trigger\<close>

lemma add_fires:
  assumes "0 < maxBatchSize (config s)"
    and "truthy (flushThreshold (config s))"
    and "the (flushThreshold (config s)) \<le>
           int (length (drop (length (items s) + 1 - nat (maxBatchSize (config s))) (items s @ [x])))"
  shows "add x s =
           flush ByThreshold (debug (DThresholdReached (the (flushThreshold (config s)))) (buffered x s))"
    and "items (add x s) = []"
    and "flusher_calls (trace (add x s)) =
           flusher_calls (trace s) @
           [drop (length (items s) + 1 - nat (maxBatchSize (config s))) (items s @ [x])]"
    and "running (add x s) = running s" and "pubsub (add x s) = pubsub s"
    and "next_task (add x s) = Suc (next_task s)"
proof -
  show a: "add x s =
           flush ByThreshold (debug (DThresholdReached (the (flushThreshold (config s)))) (buffered x s))"
    using assms by (simp add: add_eq items_buffered_pos)
  show "items (add x s) = []" by (simp add: a)
  show "flusher_calls (trace (add x s)) =
           flusher_calls (trace s) @
           [drop (length (items s) + 1 - nat (maxBatchSize (config s))) (items s @ [x])]"
    using assms(1) by (simp add: a flush_calls items_buffered_pos)
  show "running (add x s) = running s" "pubsub (add x s) = pubsub s"
    "next_task (add x s) = Suc (next_task s)"
    by (simp_all add: a)
qed

lemma add_fires_pending:
  assumes "0 < maxBatchSize (config s)"
    and "truthy (flushThreshold (config s))"
    and "the (flushThreshold (config s)) \<le>
           int (length (drop (length (items s) + 1 - nat (maxBatchSize (config s))) (items s @ [x])))"
    and "flusher s (drop (length (items s) + 1 - nat (maxBatchSize (config s))) (items s @ [x])) = Pending"
  shows "tasks (add x s) = tasks s @ [(next_task s, ByThreshold, AwaitFlusher)]"
    and "flushing (add x s) = True"
    and "trace (add x s) =
           trace (buffered x s) @ [Debug (DThresholdReached (the (flushThreshold (config s))))] @
           map (\<lambda>cb. Invoke cb \<lparr>size' = 0, isRunning = running s, isFlushing = True\<rparr>) (pubsub s) @
           [Debug (DFlushing (length (items (buffered x s)))),
            FlusherCalled (next_task s) (items (buffered x s))]"
    and "wf_tasks s \<Longrightarrow> map_of (tasks (add x s)) (next_task s) = Some (ByThreshold, AwaitFlusher)"
proof -
  let ?s' = "debug (DThresholdReached (the (flushThreshold (config s)))) (buffered x s)"
  have a: "add x s = flush ByThreshold ?s'" using assms by (intro add_fires) simp_all
  have i: "items ?s' \<noteq> []" "flusher ?s' (items ?s') = Pending"
    using assms by (simp_all add: items_buffered_pos)
  note p = flush_pending [OF i, of ByThreshold]
  show "tasks (add x s) = tasks s @ [(next_task s, ByThreshold, AwaitFlusher)]"
    by (simp add: a p)
  show "flushing (add x s) = True" by (simp add: a p)
  show "trace (add x s) =
           trace (buffered x s) @ [Debug (DThresholdReached (the (flushThreshold (config s))))] @
           map (\<lambda>cb. Invoke cb \<lparr>size' = 0, isRunning = running s, isFlushing = True\<rparr>) (pubsub s) @
           [Debug (DFlushing (length (items (buffered x s)))),
            FlusherCalled (next_task s) (items (buffered x s))]"
    by (simp add: a p)
  assume "wf_tasks s"
  then have "wf_tasks ?s'" by (simp add: wf_tasks_def)
  from map_of_flush_pending [OF i this, of ByThreshold]
  show "map_of (tasks (add x s)) (next_task s) = Some (ByThreshold, AwaitFlusher)"
    by (simp add: a)
qed

lemma map_of_flush_throws:
  assumes "items s \<noteq> []" "flusher s (items s) = Throws e" "wf_tasks s" "org \<noteq> ByCaller"
  shows "tasks (flush org s) = tasks s @ [(next_task s, org, AwaitFlush (Inl e))]"
    and "map_of (tasks (flush org s)) (next_task s) = Some (org, AwaitFlush (Inl e))"
    and "flushing (flush org s) = False"
    and "trace (flush org s) =
           trace s @
           map (\<lambda>cb. Invoke cb \<lparr>size' = 0, isRunning = running s, isFlushing = True\<rparr>) (pubsub s) @
           [Debug (DFlushing (length (items s))), FlusherCalled (next_task s) (items s)] @
           map (\<lambda>cb. Invoke cb \<lparr>size' = 0, isRunning = running s, isFlushing = False\<rparr>) (pubsub s)"
proof -
  note f = flush_throws [OF assms(1,2)]
  show t: "tasks (flush org s) = tasks s @ [(next_task s, org, AwaitFlush (Inl e))]"
    using assms(4) by (cases org) (simp_all add: f flush_settled_def)
  have "map_of (tasks s @ [(next_task s, org, AwaitFlush (Inl e))]) (next_task s) =
          Some (org, AwaitFlush (Inl e))"
    using assms(3) unfolding wf_tasks_def by (rule map_of_fresh)
  then show "map_of (tasks (flush org s)) (next_task s) = Some (org, AwaitFlush (Inl e))"
    by (simp add: t del: map_of_append)
  show "flushing (flush org s) = False"
    using assms(4) by (cases org) (simp_all add: f flush_settled_def)
  show "trace (flush org s) =
           trace s @
           map (\<lambda>cb. Invoke cb \<lparr>size' = 0, isRunning = running s, isFlushing = True\<rparr>) (pubsub s) @
           [Debug (DFlushing (length (items s))), FlusherCalled (next_task s) (items s)] @
           map (\<lambda>cb. Invoke cb \<lparr>size' = 0, isRunning = running s, isFlushing = False\<rparr>) (pubsub s)"
    using assms(4) by (cases org) (simp_all add: f flush_settled_def)
qed

lemma trace_buffered_pos:
  assumes "0 < maxBatchSize (config s)"
  shows "trace (buffered x s) =
     trace s @ [Debug (DAdd (length (items s) + 1))] @
     (if int (length (items s)) + 1 > maxBatchSize (config s)
      then [Debug (DCapApplied (length (drop (length (items s) + 1 - nat (maxBatchSize (config s))) (items s @ [x]))))]
      else []) @
     map (\<lambda>cb. Invoke cb
            \<lparr>size' = length (drop (length (items s) + 1 - nat (maxBatchSize (config s))) (items s @ [x])),
             isRunning = running s, isFlushing = flushing s\<rparr>) (pubsub s)"
  unfolding trace_buffered items_buffered_pos [OF assms] by (rule refl)

lemma add_fires_throws:
  assumes "0 < maxBatchSize (config s)"
    and "truthy (flushThreshold (config s))"
    and "the (flushThreshold (config s)) \<le>
           int (length (drop (length (items s) + 1 - nat (maxBatchSize (config s))) (items s @ [x])))"
    and "flusher s (drop (length (items s) + 1 - nat (maxBatchSize (config s))) (items s @ [x])) = Throws e"
  shows "tasks (add x s) = tasks s @ [(next_task s, ByThreshold, AwaitFlush (Inl e))]"
    and "flushing (add x s) = False"
    and "trace (add x s) =
           trace (buffered x s) @ [Debug (DThresholdReached (the (flushThreshold (config s))))] @
           map (\<lambda>cb. Invoke cb \<lparr>size' = 0, isRunning = running s, isFlushing = True\<rparr>) (pubsub s) @
           [Debug (DFlushing (length (items (buffered x s)))),
            FlusherCalled (next_task s) (items (buffered x s))] @
           map (\<lambda>cb. Invoke cb \<lparr>size' = 0, isRunning = running s, isFlushing = False\<rparr>) (pubsub s)"
    and "wf_tasks s \<Longrightarrow> map_of (tasks (add x s)) (next_task s) = Some (ByThreshold, AwaitFlush (Inl e))"
proof -
  let ?s' = "debug (DThresholdReached (the (flushThreshold (config s)))) (buffered x s)"
  have a: "add x s = flush ByThreshold ?s'" using assms by (intro add_fires) simp_all
  have i: "items ?s' \<noteq> []" "flusher ?s' (items ?s') = Throws e"
    using assms by (simp_all add: items_buffered_pos)
  have o: "ByThreshold \<noteq> ByCaller" by simp
  have t: "tasks (flush ByThreshold ?s') = tasks ?s' @ [(next_task ?s', ByThreshold, AwaitFlush (Inl e))]"
    "flushing (flush ByThreshold ?s') = False"
    "trace (flush ByThreshold ?s') =
           trace ?s' @
           map (\<lambda>cb. Invoke cb \<lparr>size' = 0, isRunning = running ?s', isFlushing = True\<rparr>) (pubsub ?s') @
           [Debug (DFlushing (length (items ?s'))), FlusherCalled (next_task ?s') (items ?s')] @
           map (\<lambda>cb. Invoke cb \<lparr>size' = 0, isRunning = running ?s', isFlushing = False\<rparr>) (pubsub ?s')"
    using i by (simp_all add: flush_throws flush_settled_def)
  show "tasks (add x s) = tasks s @ [(next_task s, ByThreshold, AwaitFlush (Inl e))]"
    using t(1) by (simp add: a)
  show "flushing (add x s) = False" using t(2) by (simp add: a)
  show "trace (add x s) =
           trace (buffered x s) @ [Debug (DThresholdReached (the (flushThreshold (config s))))] @
           map (\<lambda>cb. Invoke cb \<lparr>size' = 0, isRunning = running s, isFlushing = True\<rparr>) (pubsub s) @
           [Debug (DFlushing (length (items (buffered x s)))),
            FlusherCalled (next_task s) (items (buffered x s))] @
           map (\<lambda>cb. Invoke cb \<lparr>size' = 0, isRunning = running s, isFlushing = False\<rparr>) (pubsub s)"
    using t(3) by (simp add: a)
  assume "wf_tasks s"
  then have "wf_tasks ?s'" by (simp add: wf_tasks_def)
  from map_of_flush_throws(2) [OF i this o]
  show "map_of (tasks (add x s)) (next_task s) = Some (ByThreshold, AwaitFlush (Inl e))"
    by (simp add: a)
qed

lemma fire_armed:
  assumes "t \<in> set (armed s)"
  shows "fire t s = flush ByTimer (s\<lparr>armed := removeAll t (armed s)\<rparr>)"
  using assms by (simp add: fire_def doFlush_def)

lemma resume_timer_twice:
  assumes "map_of (tasks s) tid = Some (ByTimer, AwaitFlush (Inl e))"
  shows "trace (resume tid (resume tid s)) =
           trace s @ [if strictFlush (config s) = Some True then Unhandled e else Warn (logger (config s)) e]"
proof -
  note c = resume_timer_failed [OF assms]
  note t = truthy_bool_iff
  have m: "map_of (tasks (resume tid s)) tid =
      Some (ByTimer, AwaitDoFlush (if strictFlush (config s) = Some True then Some e else None))"
    using map_of_replaced [of tid "tasks s"] by (simp add: c t del: map_of_append)
  show ?thesis
  proof (cases "strictFlush (config s) = Some True")
    case True
    with m have "map_of (tasks (resume tid s)) tid = Some (ByTimer, AwaitDoFlush (Some e))" by simp
    from resume_timer_rejected [OF this] show ?thesis using True by (simp add: c t)
  next
    case False
    with m have "map_of (tasks (resume tid s)) tid = Some (ByTimer, AwaitDoFlush None)" by simp
    from resume_timer_done [OF this] show ?thesis using False by (simp add: c t)
  qed
qed

text \<open>
  Claim C5 (policy of the internally triggered flush).  For a flush started by the
  threshold trigger or by the timer, a failure of the flush callback leaves \<open>flush\<close>
  with \<open>flushing\<close> reset and the subscribers notified and reaches \<open>#doFlush\<close> only:
  nothing is handed to a caller.  When \<open>#doFlush\<close> resumes it rethrows exactly when
  \<open>strictFlush\<close> is true; nobody awaits it, so the rejection is an unhandled one (after
  the timer callback passed it on, in the timer's case).  Otherwise it logs one warning
  with the error on \<open>config.logger\<close> (or the console) and nothing else happens.
  Neither step touches the buffer, which the flush had emptied, and \<open>add\<close> itself has
  returned before either of them.  This holds for a callback whose promise is rejected
  and for a callback that throws before it returns a promise: in both cases what
  \<open>add\<close> (or the firing timeout) itself appends to the trace is given in full, and it
  holds no warning, no unhandled rejection and no settled promise; the failure shows
  only when \<open>#doFlush\<close> resumes.
\<close>

theorem internal_flush_policy:
  "(map_of (tasks s) tid = Some (org, AwaitFlusher) \<and> (org = ByThreshold \<or> org = ByTimer) \<longrightarrow>
      trace (settle tid (Inl e) s) =
        trace s @
        map (\<lambda>cb. Invoke cb \<lparr>size' = length (items s), isRunning = running s, isFlushing = False\<rparr>)
          (pubsub s) \<and>
      flushing (settle tid (Inl e) s) = False \<and>
      items (settle tid (Inl e) s) = items s \<and>
      map_of (tasks (settle tid (Inl e) s)) tid = Some (org, AwaitFlush (Inl e))) \<and>
   (map_of (tasks s) tid = Some (ByThreshold, AwaitFlush (Inl e)) \<longrightarrow>
      trace (resume tid s) =
        trace s @ [if strictFlush (config s) = Some True then Unhandled e else Warn (logger (config s)) e] \<and>
      map_of (tasks (resume tid s)) tid = None) \<and>
   (map_of (tasks s) tid = Some (ByTimer, AwaitFlush (Inl e)) \<longrightarrow>
      trace (resume tid s) =
        trace s @ (if strictFlush (config s) = Some True then [] else [Warn (logger (config s)) e]) \<and>
      trace (resume tid (resume tid s)) =
        trace s @ [if strictFlush (config s) = Some True then Unhandled e else Warn (logger (config s)) e]) \<and>
   items (resume tid s) = items s \<and> flushing (resume tid s) = flushing s \<and>
   (0 < maxBatchSize (config s) \<and> truthy (flushThreshold (config s)) \<and>
    the (flushThreshold (config s)) \<le>
      int (length (drop (length (items s) + 1 - nat (maxBatchSize (config s))) (items s @ [x]))) \<and>
    flusher s (drop (length (items s) + 1 - nat (maxBatchSize (config s))) (items s @ [x])) = Pending \<and>
    wf_tasks s \<longrightarrow>
      map_of (tasks (add x s)) (next_task s) = Some (ByThreshold, AwaitFlusher) \<and>
      trace (add x s) =
        trace s @ [Debug (DAdd (length (items s) + 1))] @
        (if int (length (items s)) + 1 > maxBatchSize (config s)
         then [Debug (DCapApplied (length (drop (length (items s) + 1 - nat (maxBatchSize (config s))) (items s @ [x]))))]
         else []) @
        map (\<lambda>cb. Invoke cb
               \<lparr>size' = length (drop (length (items s) + 1 - nat (maxBatchSize (config s))) (items s @ [x])),
                isRunning = running s, isFlushing = flushing s\<rparr>) (pubsub s) @
        [Debug (DThresholdReached (the (flushThreshold (config s))))] @
        map (\<lambda>cb. Invoke cb \<lparr>size' = 0, isRunning = running s, isFlushing = True\<rparr>) (pubsub s) @
        [Debug (DFlushing (length (drop (length (items s) + 1 - nat (maxBatchSize (config s))) (items s @ [x])))),
         FlusherCalled (next_task s) (drop (length (items s) + 1 - nat (maxBatchSize (config s))) (items s @ [x]))] \<and>
      trace (resume (next_task s) (settle (next_task s) (Inl e) (add x s))) =
        trace (add x s) @
        map (\<lambda>cb. Invoke cb \<lparr>size' = 0, isRunning = running s, isFlushing = False\<rparr>) (pubsub s) @
        [if strictFlush (config s) = Some True then Unhandled e else Warn (logger (config s)) e] \<and>
      items (resume (next_task s) (settle (next_task s) (Inl e) (add x s))) = [] \<and>
      flushing (resume (next_task s) (settle (next_task s) (Inl e) (add x s))) = False) \<and>
   (0 < maxBatchSize (config s) \<and> truthy (flushThreshold (config s)) \<and>
    the (flushThreshold (config s)) \<le>
      int (length (drop (length (items s) + 1 - nat (maxBatchSize (config s))) (items s @ [x]))) \<and>
    flusher s (drop (length (items s) + 1 - nat (maxBatchSize (config s))) (items s @ [x])) = Throws e \<and>
    wf_tasks s \<longrightarrow>
      map_of (tasks (add x s)) (next_task s) = Some (ByThreshold, AwaitFlush (Inl e)) \<and>
      trace (add x s) =
        trace s @ [Debug (DAdd (length (items s) + 1))] @
        (if int (length (items s)) + 1 > maxBatchSize (config s)
         then [Debug (DCapApplied (length (drop (length (items s) + 1 - nat (maxBatchSize (config s))) (items s @ [x]))))]
         else []) @
        map (\<lambda>cb. Invoke cb
               \<lparr>size' = length (drop (length (items s) + 1 - nat (maxBatchSize (config s))) (items s @ [x])),
                isRunning = running s, isFlushing = flushing s\<rparr>) (pubsub s) @
        [Debug (DThresholdReached (the (flushThreshold (config s))))] @
        map (\<lambda>cb. Invoke cb \<lparr>size' = 0, isRunning = running s, isFlushing = True\<rparr>) (pubsub s) @
        [Debug (DFlushing (length (drop (length (items s) + 1 - nat (maxBatchSize (config s))) (items s @ [x])))),
         FlusherCalled (next_task s) (drop (length (items s) + 1 - nat (maxBatchSize (config s))) (items s @ [x]))] @
        map (\<lambda>cb. Invoke cb \<lparr>size' = 0, isRunning = running s, isFlushing = False\<rparr>) (pubsub s) \<and>
      items (add x s) = [] \<and> flushing (add x s) = False \<and>
      trace (resume (next_task s) (add x s)) = trace (add x s) @ [if strictFlush (config s) = Some True then Unhandled e else Warn (logger (config s)) e] \<and>
      items (resume (next_task s) (add x s)) = [] \<and>
      flushing (resume (next_task s) (add x s)) = False) \<and>
   (t \<in> set (armed s) \<and> items s \<noteq> [] \<and> flusher s (items s) = Pending \<and> wf_tasks s \<longrightarrow>
      map_of (tasks (fire t s)) (next_task s) = Some (ByTimer, AwaitFlusher) \<and>
      trace (fire t s) =
        trace s @
        map (\<lambda>cb. Invoke cb \<lparr>size' = 0, isRunning = running s, isFlushing = True\<rparr>) (pubsub s) @
        [Debug (DFlushing (length (items s))), FlusherCalled (next_task s) (items s)] \<and>
      trace (resume (next_task s) (resume (next_task s) (settle (next_task s) (Inl e) (fire t s)))) =
        trace (fire t s) @
        map (\<lambda>cb. Invoke cb \<lparr>size' = 0, isRunning = running s, isFlushing = False\<rparr>) (pubsub s) @
        [if strictFlush (config s) = Some True then Unhandled e else Warn (logger (config s)) e] \<and>
      items (resume (next_task s) (resume (next_task s) (settle (next_task s) (Inl e) (fire t s)))) = [] \<and>
      flushing (resume (next_task s) (resume (next_task s) (settle (next_task s) (Inl e) (fire t s)))) = False) \<and>
   (t \<in> set (armed s) \<and> items s \<noteq> [] \<and> flusher s (items s) = Throws e \<and> wf_tasks s \<longrightarrow>
      map_of (tasks (fire t s)) (next_task s) = Some (ByTimer, AwaitFlush (Inl e)) \<and>
      trace (fire t s) =
        trace s @
        map (\<lambda>cb. Invoke cb \<lparr>size' = 0, isRunning = running s, isFlushing = True\<rparr>) (pubsub s) @
        [Debug (DFlushing (length (items s))), FlusherCalled (next_task s) (items s)] @
        map (\<lambda>cb. Invoke cb \<lparr>size' = 0, isRunning = running s, isFlushing = False\<rparr>) (pubsub s) \<and>
      items (fire t s) = [] \<and> flushing (fire t s) = False \<and>
      trace (resume (next_task s) (resume (next_task s) (fire t s))) = trace (fire t s) @ [if strictFlush (config s) = Some True then Unhandled e else Warn (logger (config s)) e] \<and>
      items (resume (next_task s) (resume (next_task s) (fire t s))) = [] \<and>
      flushing (resume (next_task s) (resume (next_task s) (fire t s))) = False)"
proof (intro conjI impI)
  assume a: "map_of (tasks s) tid = Some (org, AwaitFlusher) \<and> (org = ByThreshold \<or> org = ByTimer)"
  then have m: "map_of (tasks s) tid = Some (org, AwaitFlusher)" and o: "org \<noteq> ByCaller" by auto
  note c = settle_internal [OF m o, of "Inl e"]
  show "trace (settle tid (Inl e) s) =
        trace s @
        map (\<lambda>cb. Invoke cb \<lparr>size' = length (items s), isRunning = running s, isFlushing = False\<rparr>)
          (pubsub s)"
    by (simp add: c)
  show "flushing (settle tid (Inl e) s) = False" by (simp add: c)
  show "items (settle tid (Inl e) s) = items s" by simp
  show "map_of (tasks (settle tid (Inl e) s)) tid = Some (org, AwaitFlush (Inl e))"
    using m o by (rule map_of_settle_internal)
next
  assume a: "map_of (tasks s) tid = Some (ByThreshold, AwaitFlush (Inl e))"
  note c = resume_threshold_failed [OF a]
  show "trace (resume tid s) =
        trace s @ [if strictFlush (config s) = Some True then Unhandled e else Warn (logger (config s)) e]"
    by (simp add: c truthy_bool_iff)
  have "map_of (filter (\<lambda>t. fst t \<noteq> tid) (tasks s)) tid = None"
    by (induction "tasks s") (auto simp: map_of_eq_None_iff)
  then show "map_of (tasks (resume tid s)) tid = None" by (simp add: c)
next
  assume a: "map_of (tasks s) tid = Some (ByTimer, AwaitFlush (Inl e))"
  note c = resume_timer_failed [OF a]
  note t = truthy_bool_iff
  show "trace (resume tid s) =
        trace s @ (if strictFlush (config s) = Some True then [] else [Warn (logger (config s)) e])"
    by (simp add: c t)
  have m: "map_of (tasks (resume tid s)) tid =
      Some (ByTimer, AwaitDoFlush (if strictFlush (config s) = Some True then Some e else None))"
    using map_of_replaced [of tid "tasks s"] by (simp add: c t del: map_of_append)
  show "trace (resume tid (resume tid s)) =
        trace s @ [if strictFlush (config s) = Some True then Unhandled e else Warn (logger (config s)) e]"
  proof (cases "strictFlush (config s) = Some True")
    case True
    with m have "map_of (tasks (resume tid s)) tid = Some (ByTimer, AwaitDoFlush (Some e))" by simp
    from resume_timer_rejected [OF this] show ?thesis using True by (simp add: c t)
  next
    case False
    with m have "map_of (tasks (resume tid s)) tid = Some (ByTimer, AwaitDoFlush None)" by simp
    from resume_timer_done [OF this] show ?thesis using False by (simp add: c t)
  qed
next
  show "items (resume tid s) = items s" by simp
  show "flushing (resume tid s) = flushing s" by simp
next
  assume a: "0 < maxBatchSize (config s) \<and> truthy (flushThreshold (config s)) \<and>
    the (flushThreshold (config s)) \<le>
      int (length (drop (length (items s) + 1 - nat (maxBatchSize (config s))) (items s @ [x]))) \<and>
    flusher s (drop (length (items s) + 1 - nat (maxBatchSize (config s))) (items s @ [x])) = Pending \<and>
    wf_tasks s"
  then have a1: "0 < maxBatchSize (config s)" and a2: "truthy (flushThreshold (config s))"
    and a3: "the (flushThreshold (config s)) \<le>
      int (length (drop (length (items s) + 1 - nat (maxBatchSize (config s))) (items s @ [x])))"
    and a4: "flusher s (drop (length (items s) + 1 - nat (maxBatchSize (config s))) (items s @ [x])) = Pending"
    and a5: "wf_tasks s"
    by simp_all
  note f = add_fires [OF a1 a2 a3]
  show m: "map_of (tasks (add x s)) (next_task s) = Some (ByThreshold, AwaitFlusher)"
    using a1 a2 a3 a4 a5 by (rule add_fires_pending(4))
  note gp = add_fires_pending [OF a1 a2 a3 a4]
  show "trace (add x s) =
        trace s @ [Debug (DAdd (length (items s) + 1))] @
        (if int (length (items s)) + 1 > maxBatchSize (config s)
         then [Debug (DCapApplied (length (drop (length (items s) + 1 - nat (maxBatchSize (config s))) (items s @ [x]))))]
         else []) @
        map (\<lambda>cb. Invoke cb
               \<lparr>size' = length (drop (length (items s) + 1 - nat (maxBatchSize (config s))) (items s @ [x])),
                isRunning = running s, isFlushing = flushing s\<rparr>) (pubsub s) @
        [Debug (DThresholdReached (the (flushThreshold (config s))))] @
        map (\<lambda>cb. Invoke cb \<lparr>size' = 0, isRunning = running s, isFlushing = True\<rparr>) (pubsub s) @
        [Debug (DFlushing (length (drop (length (items s) + 1 - nat (maxBatchSize (config s))) (items s @ [x])))),
         FlusherCalled (next_task s) (drop (length (items s) + 1 - nat (maxBatchSize (config s))) (items s @ [x]))]"
    by (simp add: gp(3) trace_buffered_pos [OF a1] items_buffered_pos [OF a1])
  have o: "ByThreshold \<noteq> ByCaller" by simp
  note c = settle_internal [OF m o, of "Inl e"]
  have m2: "map_of (tasks (settle (next_task s) (Inl e) (add x s))) (next_task s) =
      Some (ByThreshold, AwaitFlush (Inl e))"
    using m o by (rule map_of_settle_internal)
  note r = resume_threshold_failed [OF m2]
  show "trace (resume (next_task s) (settle (next_task s) (Inl e) (add x s))) =
        trace (add x s) @
        map (\<lambda>cb. Invoke cb \<lparr>size' = 0, isRunning = running s, isFlushing = False\<rparr>) (pubsub s) @
        [if strictFlush (config s) = Some True then Unhandled e else Warn (logger (config s)) e]"
    by (simp add: r truthy_bool_iff) (simp add: c f(2) f(4) f(5))
  show "items (resume (next_task s) (settle (next_task s) (Inl e) (add x s))) = []"
    by (simp add: f(2))
  show "flushing (resume (next_task s) (settle (next_task s) (Inl e) (add x s))) = False"
    by (simp add: c)
next
  assume a: "0 < maxBatchSize (config s) \<and> truthy (flushThreshold (config s)) \<and>
    the (flushThreshold (config s)) \<le>
      int (length (drop (length (items s) + 1 - nat (maxBatchSize (config s))) (items s @ [x]))) \<and>
    flusher s (drop (length (items s) + 1 - nat (maxBatchSize (config s))) (items s @ [x])) = Throws e \<and>
    wf_tasks s"
  then have a1: "0 < maxBatchSize (config s)" and a2: "truthy (flushThreshold (config s))"
    and a3: "the (flushThreshold (config s)) \<le>
      int (length (drop (length (items s) + 1 - nat (maxBatchSize (config s))) (items s @ [x])))"
    and a4: "flusher s (drop (length (items s) + 1 - nat (maxBatchSize (config s))) (items s @ [x])) = Throws e"
    and a5: "wf_tasks s"
    by simp_all
  note f = add_fires [OF a1 a2 a3]
  note g = add_fires_throws [OF a1 a2 a3 a4]
  show m: "map_of (tasks (add x s)) (next_task s) = Some (ByThreshold, AwaitFlush (Inl e))"
    using a5 by (rule g(4))
  show "trace (add x s) =
        trace s @ [Debug (DAdd (length (items s) + 1))] @
        (if int (length (items s)) + 1 > maxBatchSize (config s)
         then [Debug (DCapApplied (length (drop (length (items s) + 1 - nat (maxBatchSize (config s))) (items s @ [x]))))]
         else []) @
        map (\<lambda>cb. Invoke cb
               \<lparr>size' = length (drop (length (items s) + 1 - nat (maxBatchSize (config s))) (items s @ [x])),
                isRunning = running s, isFlushing = flushing s\<rparr>) (pubsub s) @
        [Debug (DThresholdReached (the (flushThreshold (config s))))] @
        map (\<lambda>cb. Invoke cb \<lparr>size' = 0, isRunning = running s, isFlushing = True\<rparr>) (pubsub s) @
        [Debug (DFlushing (length (drop (length (items s) + 1 - nat (maxBatchSize (config s))) (items s @ [x])))),
         FlusherCalled (next_task s) (drop (length (items s) + 1 - nat (maxBatchSize (config s))) (items s @ [x]))] @
        map (\<lambda>cb. Invoke cb \<lparr>size' = 0, isRunning = running s, isFlushing = False\<rparr>) (pubsub s)"
    by (simp add: g(3) trace_buffered_pos [OF a1] items_buffered_pos [OF a1])
  show "items (add x s) = []" by (rule f(2))
  show "flushing (add x s) = False" by (rule g(2))
  note r = resume_threshold_failed [OF m]
  show "trace (resume (next_task s) (add x s)) = trace (add x s) @ [if strictFlush (config s) = Some True then Unhandled e else Warn (logger (config s)) e]"
    by (simp add: r truthy_bool_iff)
  show "items (resume (next_task s) (add x s)) = []" by (simp add: f(2))
  show "flushing (resume (next_task s) (add x s)) = False" by (simp add: g(2))
next
  assume a: "t \<in> set (armed s) \<and> items s \<noteq> [] \<and> flusher s (items s) = Pending \<and> wf_tasks s"
  let ?s' = "s\<lparr>armed := removeAll t (armed s)\<rparr>"
  from a have fe: "fire t s = flush ByTimer ?s'" by (simp add: fire_armed)
  from a have i: "items ?s' \<noteq> []" "flusher ?s' (items ?s') = Pending" "wf_tasks ?s'"
    by (simp_all add: wf_tasks_def)
  from map_of_flush_pending [OF i, of ByTimer]
  show m: "map_of (tasks (fire t s)) (next_task s) = Some (ByTimer, AwaitFlusher)"
    by (simp add: fe)
  show "trace (fire t s) =
        trace s @
        map (\<lambda>cb. Invoke cb \<lparr>size' = 0, isRunning = running s, isFlushing = True\<rparr>) (pubsub s) @
        [Debug (DFlushing (length (items s))), FlusherCalled (next_task s) (items s)]"
    using flush_pending [OF i(1,2), of ByTimer] by (simp add: fe)
  have v: "items (fire t s) = []" "running (fire t s) = running s" "pubsub (fire t s) = pubsub s"
    "config (fire t s) = config s"
    by (simp_all add: fe)
  have o: "ByTimer \<noteq> ByCaller" by simp
  note c = settle_internal [OF m o, of "Inl e"]
  have m2: "map_of (tasks (settle (next_task s) (Inl e) (fire t s))) (next_task s) =
      Some (ByTimer, AwaitFlush (Inl e))"
    using m o by (rule map_of_settle_internal)
  show "trace (resume (next_task s) (resume (next_task s) (settle (next_task s) (Inl e) (fire t s)))) =
        trace (fire t s) @
        map (\<lambda>cb. Invoke cb \<lparr>size' = 0, isRunning = running s, isFlushing = False\<rparr>) (pubsub s) @
        [if strictFlush (config s) = Some True then Unhandled e else Warn (logger (config s)) e]"
    by (simp add: resume_timer_twice [OF m2] v) (simp add: c v)
  show "items (resume (next_task s) (resume (next_task s) (settle (next_task s) (Inl e) (fire t s)))) = []"
    by (simp add: v)
  show "flushing (resume (next_task s) (resume (next_task s) (settle (next_task s) (Inl e) (fire t s)))) = False"
    by (simp add: c)
next
  assume a: "t \<in> set (armed s) \<and> items s \<noteq> [] \<and> flusher s (items s) = Throws e \<and> wf_tasks s"
  let ?s' = "s\<lparr>armed := removeAll t (armed s)\<rparr>"
  from a have fe: "fire t s = flush ByTimer ?s'" by (simp add: fire_armed)
  from a have i: "items ?s' \<noteq> []" "flusher ?s' (items ?s') = Throws e" "wf_tasks ?s'"
    by (simp_all add: wf_tasks_def)
  have o: "ByTimer \<noteq> ByCaller" by simp
  note ft = map_of_flush_throws [OF i o]
  from ft(2) show m: "map_of (tasks (fire t s)) (next_task s) = Some (ByTimer, AwaitFlush (Inl e))"
    by (simp add: fe)
  show "trace (fire t s) =
        trace s @
        map (\<lambda>cb. Invoke cb \<lparr>size' = 0, isRunning = running s, isFlushing = True\<rparr>) (pubsub s) @
        [Debug (DFlushing (length (items s))), FlusherCalled (next_task s) (items s)] @
        map (\<lambda>cb. Invoke cb \<lparr>size' = 0, isRunning = running s, isFlushing = False\<rparr>) (pubsub s)"
    using ft(4) by (simp add: fe)
  show "items (fire t s) = []" by (simp add: fe)
  show fl: "flushing (fire t s) = False" using ft(3) by (simp add: fe)
  have v: "config (fire t s) = config s" by (simp add: fe)
  show "trace (resume (next_task s) (resume (next_task s) (fire t s))) = trace (fire t s) @ [if strictFlush (config s) = Some True then Unhandled e else Warn (logger (config s)) e]"
    by (simp add: resume_timer_twice [OF m] v)
  show "items (resume (next_task s) (resume (next_task s) (fire t s))) = []" by (simp add: fe)
  show "flushing (resume (next_task s) (resume (next_task s) (fire t s))) = False" by (simp add: fl)
qed

theorem internal_flush_policy_witness:
  "map_of (tasks (run amount_batch (map Add ''abc''))) 0 = Some (ByThreshold, AwaitFlusher) \<and>
   trace (settle 0 (Inl ''boom'') (run amount_batch (map Add ''abc''))) =
     trace (run amount_batch (map Add ''abc'')) \<and>
   flushing (settle 0 (Inl ''boom'') (run amount_batch (map Add ''abc''))) = False \<and>
   map_of (tasks (run amount_batch (map Add ''abc'' @ [Settle 0 (Inl ''boom'')]))) 0 =
     Some (ByThreshold, AwaitFlush (Inl ''boom'')) \<and>
   trace (resume 0 (run amount_batch (map Add ''abc'' @ [Settle 0 (Inl ''boom'')]))) =
     trace (run amount_batch (map Add ''abc'' @ [Settle 0 (Inl ''boom'')])) @ [Warn None ''boom''] \<and>
   map_of (tasks (run amount_batch (Configure [StrictFlush (Some True)] # map Add ''abc'' @ [Settle 0 (Inl ''boom'')]))) 0 =
     Some (ByThreshold, AwaitFlush (Inl ''boom'')) \<and>
   trace (resume 0 (run amount_batch (Configure [StrictFlush (Some True)] # map Add ''abc'' @ [Settle 0 (Inl ''boom'')]))) =
     trace (run amount_batch (Configure [StrictFlush (Some True)] # map Add ''abc'' @ [Settle 0 (Inl ''boom'')])) @
     [Unhandled ''boom''] \<and>
   map_of (tasks (run interval_batch [Add CHR ''a'', Fire 0, Settle 0 (Inl ''boom'')])) 0 =
     Some (ByTimer, AwaitFlush (Inl ''boom'')) \<and>
   trace (resume 0 (resume 0 (run interval_batch [Add CHR ''a'', Fire 0, Settle 0 (Inl ''boom'')]))) =
     trace (run interval_batch [Add CHR ''a'', Fire 0, Settle 0 (Inl ''boom'')]) @ [Warn None ''boom''] \<and>
   0 < maxBatchSize (config (run amount_batch (map Add ''ab''))) \<and>
   truthy (flushThreshold (config (run amount_batch (map Add ''ab'')))) \<and>
   wf_tasks (run amount_batch (map Add ''ab'')) \<and>
   items (resume 0 (settle 0 (Inl ''boom'') (add CHR ''c'' (run amount_batch (map Add ''ab''))))) = [] \<and>
   flushing (resume 0 (settle 0 (Inl ''boom'') (add CHR ''c'' (run amount_batch (map Add ''ab''))))) = False \<and>
   trace (resume 0 (settle 0 (Inl ''boom'') (add CHR ''c'' (run amount_batch (map Add ''ab''))))) =
     trace (add CHR ''c'' (run amount_batch (map Add ''ab''))) @ [Warn None ''boom''] \<and>
   flusher ((run amount_batch (map Add ''ab''))\<lparr>flusher := \<lambda>_. Throws ''boom''\<rparr>) ''abc'' = Throws ''boom'' \<and>
   wf_tasks ((run amount_batch (map Add ''ab''))\<lparr>flusher := \<lambda>_. Throws ''boom''\<rparr>) \<and>
   flushing (add CHR ''c'' ((run amount_batch (map Add ''ab''))\<lparr>flusher := \<lambda>_. Throws ''boom''\<rparr>)) = False \<and>
   trace (add CHR ''c'' ((run amount_batch (map Add ''ab''))\<lparr>flusher := \<lambda>_. Throws ''boom''\<rparr>)) =
     trace ((run amount_batch (map Add ''ab''))\<lparr>flusher := \<lambda>_. Throws ''boom''\<rparr>) @
     [Debug (DAdd 3), Debug (DThresholdReached 3), Debug (DFlushing 3), FlusherCalled 0 ''abc''] \<and>
   trace (resume 0 (add CHR ''c'' ((run amount_batch (map Add ''ab''))\<lparr>flusher := \<lambda>_. Throws ''boom''\<rparr>))) =
     trace (add CHR ''c'' ((run amount_batch (map Add ''ab''))\<lparr>flusher := \<lambda>_. Throws ''boom''\<rparr>)) @ [Warn None ''boom''] \<and>
   trace (resume 0 (add CHR ''c'' ((run amount_batch (Configure [StrictFlush (Some True)] # map Add ''ab''))\<lparr>flusher := \<lambda>_. Throws ''boom''\<rparr>))) =
     trace (add CHR ''c'' ((run amount_batch (Configure [StrictFlush (Some True)] # map Add ''ab''))\<lparr>flusher := \<lambda>_. Throws ''boom''\<rparr>)) @ [Unhandled ''boom''] \<and>
   0 \<in> set (armed (run interval_batch [Add CHR ''a''])) \<and> items (run interval_batch [Add CHR ''a'']) \<noteq> [] \<and>
   flusher (run interval_batch [Add CHR ''a'']) (items (run interval_batch [Add CHR ''a''])) = Pending \<and> wf_tasks (run interval_batch [Add CHR ''a'']) \<and>
   trace (resume 0 (resume 0 (settle 0 (Inl ''boom'') (fire 0 (run interval_batch [Add CHR ''a'']))))) =
     trace (fire 0 (run interval_batch [Add CHR ''a''])) @ [Warn None ''boom''] \<and>
   flusher ((run interval_batch [Add CHR ''a''])\<lparr>flusher := \<lambda>_. Throws ''boom''\<rparr>) (items ((run interval_batch [Add CHR ''a''])\<lparr>flusher := \<lambda>_. Throws ''boom''\<rparr>)) = Throws ''boom'' \<and>
   trace (fire 0 ((run interval_batch [Add CHR ''a''])\<lparr>flusher := \<lambda>_. Throws ''boom''\<rparr>)) =
     trace ((run interval_batch [Add CHR ''a''])\<lparr>flusher := \<lambda>_. Throws ''boom''\<rparr>) @ [Debug (DFlushing 1), FlusherCalled 0 ''a''] \<and>
   trace (resume 0 (resume 0 (fire 0 ((run interval_batch [Add CHR ''a''])\<lparr>flusher := \<lambda>_. Throws ''boom''\<rparr>)))) =
     trace (fire 0 ((run interval_batch [Add CHR ''a''])\<lparr>flusher := \<lambda>_. Throws ''boom''\<rparr>)) @ [Warn None ''boom'']"

proof -
  let ?s1 = "run amount_batch (map Add ''abc'')"
  let ?s2 = "run amount_batch (map Add ''abc'' @ [Settle 0 (Inl ''boom'')])"
  let ?s3 = "run amount_batch (Configure [StrictFlush (Some True)] # map Add ''abc'' @ [Settle 0 (Inl ''boom'')])"
  let ?s4 = "run interval_batch [Add CHR ''a'', Fire 0, Settle 0 (Inl ''boom'')]"
  let ?s5 = "run amount_batch (map Add ''ab'')"
  have h1: "map_of (tasks ?s1) 0 = Some (ByThreshold, AwaitFlusher)" by code_simp
  have v1: "pubsub ?s1 = []" by code_simp
  have h2: "map_of (tasks ?s2) 0 = Some (ByThreshold, AwaitFlush (Inl ''boom''))" by code_simp
  have v2: "strictFlush (config ?s2) = Some False" "logger (config ?s2) = None" by code_simp+
  have h3: "map_of (tasks ?s3) 0 = Some (ByThreshold, AwaitFlush (Inl ''boom''))" by code_simp
  have v3: "strictFlush (config ?s3) = Some True" by code_simp
  have h4: "map_of (tasks ?s4) 0 = Some (ByTimer, AwaitFlush (Inl ''boom''))" by code_simp
  have v4: "strictFlush (config ?s4) = Some False" "logger (config ?s4) = None" by code_simp+
  have h5: "0 < maxBatchSize (config ?s5)" "truthy (flushThreshold (config ?s5))" "wf_tasks ?s5"
    "the (flushThreshold (config ?s5)) \<le>
      int (length (drop (length (items ?s5) + 1 - nat (maxBatchSize (config ?s5))) (items ?s5 @ ''c'')))"
    "flusher ?s5 (drop (length (items ?s5) + 1 - nat (maxBatchSize (config ?s5))) (items ?s5 @ ''c'')) = Pending"
    by code_simp+
  have v5: "next_task ?s5 = 0" "pubsub ?s5 = []" "strictFlush (config ?s5) = Some False"
    "logger (config ?s5) = None"
    by code_simp+
  from internal_flush_policy [of ?s1 0 ByThreshold "''boom''"] h1
  have 1: "trace (settle 0 (Inl ''boom'') ?s1) = trace ?s1"
    "flushing (settle 0 (Inl ''boom'') ?s1) = False"
    unfolding v1 by simp_all
  from internal_flush_policy [of ?s2 0 _ "''boom''"] h2
  have 2: "trace (resume 0 ?s2) = trace ?s2 @ [Warn None ''boom'']"
    unfolding v2 by simp
  from internal_flush_policy [of ?s3 0 _ "''boom''"] h3
  have 3: "trace (resume 0 ?s3) = trace ?s3 @ [Unhandled ''boom'']"
    unfolding v3 by simp
  from internal_flush_policy [of ?s4 0 _ "''boom''"] h4
  have 4: "trace (resume 0 (resume 0 ?s4)) = trace ?s4 @ [Warn None ''boom'']"
    unfolding v4 by simp
  from internal_flush_policy [of ?s5 _ _ "''boom''" "CHR ''c''"] h5
  have 5: "items (resume 0 (settle 0 (Inl ''boom'') (add CHR ''c'' ?s5))) = []"
    "flushing (resume 0 (settle 0 (Inl ''boom'') (add CHR ''c'' ?s5))) = False"
    "trace (resume 0 (settle 0 (Inl ''boom'') (add CHR ''c'' ?s5))) =
       trace (add CHR ''c'' ?s5) @ [Warn None ''boom'']"
    unfolding v5 by simp_all
  let ?s6 = "(run amount_batch (map Add ''ab''))\<lparr>flusher := \<lambda>_. Throws ''boom''\<rparr>"
  let ?s7 = "(run amount_batch (Configure [StrictFlush (Some True)] # map Add ''ab''))\<lparr>flusher := \<lambda>_. Throws ''boom''\<rparr>"
  let ?s8 = "run interval_batch [Add CHR ''a'']"
  let ?s9 = "(run interval_batch [Add CHR ''a''])\<lparr>flusher := \<lambda>_. Throws ''boom''\<rparr>"
  have h6: "0 < maxBatchSize (config ?s6)" "truthy (flushThreshold (config ?s6))"
    "the (flushThreshold (config ?s6)) \<le> int (length (drop (length (items ?s6) + 1 - nat (maxBatchSize (config ?s6))) (items ?s6 @ ''c'')))"
    "flusher ?s6 (drop (length (items ?s6) + 1 - nat (maxBatchSize (config ?s6))) (items ?s6 @ ''c'')) = Throws ''boom''"
    "wf_tasks ?s6"
    by code_simp+
  have v6: "next_task ?s6 = 0" "pubsub ?s6 = []" "strictFlush (config ?s6) = Some False"
    "logger (config ?s6) = None" "items ?s6 = ''ab''" "maxBatchSize (config ?s6) = 100"
    "flushThreshold (config ?s6) = Some 3"
    by code_simp+
  have w6: "flusher ?s6 ''abc'' = Throws ''boom''" by code_simp
  have h7: "0 < maxBatchSize (config ?s7)" "truthy (flushThreshold (config ?s7))"
    "the (flushThreshold (config ?s7)) \<le> int (length (drop (length (items ?s7) + 1 - nat (maxBatchSize (config ?s7))) (items ?s7 @ ''c'')))"
    "flusher ?s7 (drop (length (items ?s7) + 1 - nat (maxBatchSize (config ?s7))) (items ?s7 @ ''c'')) = Throws ''boom''"
    "wf_tasks ?s7"
    by code_simp+
  have v7: "next_task ?s7 = 0" "strictFlush (config ?s7) = Some True" by code_simp+
  have h8: "0 \<in> set (armed ?s8)" "items ?s8 \<noteq> []" "flusher ?s8 (items ?s8) = Pending" "wf_tasks ?s8"
    by code_simp+
  have v8: "next_task ?s8 = 0" "pubsub ?s8 = []" "strictFlush (config ?s8) = Some False"
    "logger (config ?s8) = None"
    by code_simp+
  have h9: "0 \<in> set (armed ?s9)" "items ?s9 \<noteq> []" "flusher ?s9 (items ?s9) = Throws ''boom''"
    "wf_tasks ?s9"
    by code_simp+
  have v9: "next_task ?s9 = 0" "pubsub ?s9 = []" "strictFlush (config ?s9) = Some False"
    "logger (config ?s9) = None" "items ?s9 = ''a''"
    by code_simp+
  from internal_flush_policy [where s = ?s6 and tid = 0 and org = ByThreshold and e = "''boom''"
      and x = "CHR ''c''" and t = 0] h6
  have 6: "flushing (add CHR ''c'' ?s6) = False"
    "trace (add CHR ''c'' ?s6) =
       trace ?s6 @ [Debug (DAdd 3), Debug (DThresholdReached 3), Debug (DFlushing 3), FlusherCalled 0 ''abc'']"
    "trace (resume 0 (add CHR ''c'' ?s6)) = trace (add CHR ''c'' ?s6) @ [Warn None ''boom'']"
    unfolding v6 by simp_all
  from internal_flush_policy [where s = ?s7 and tid = 0 and org = ByThreshold and e = "''boom''"
      and x = "CHR ''c''" and t = 0] h7
  have 7: "trace (resume 0 (add CHR ''c'' ?s7)) = trace (add CHR ''c'' ?s7) @ [Unhandled ''boom'']"
    unfolding v7 by simp
  from internal_flush_policy [where s = ?s8 and tid = 0 and org = ByTimer and e = "''boom''"
      and x = "CHR ''c''" and t = 0] h8
  have 8: "trace (resume 0 (resume 0 (settle 0 (Inl ''boom'') (fire 0 ?s8)))) =
     trace (fire 0 ?s8) @ [Warn None ''boom'']"
    unfolding v8 by simp
  from internal_flush_policy [where s = ?s9 and tid = 0 and org = ByTimer and e = "''boom''"
      and x = "CHR ''c''" and t = 0] h9
  have 9: "trace (fire 0 ?s9) = trace ?s9 @ [Debug (DFlushing 1), FlusherCalled 0 ''a'']"
    "trace (resume 0 (resume 0 (fire 0 ?s9))) = trace (fire 0 ?s9) @ [Warn None ''boom'']"
    unfolding v9 by simp_all
  show ?thesis using h1 h2 h3 h4 h5(1-3) 1 2 3 4 5 w6 h6(5) 6 7 h8 8 h9(3) 9 by blast
qed

text \<open>
  Claim C6 (threshold trigger).  With a positive cap, when \<open>flushThreshold\<close> is a number
  other than 0 and the buffer after the push and the cap has at least that many items,
  \<open>add\<close> hands exactly that buffer to the flush callback and returns with the buffer
  empty and, when the callback returned a promise, with the call still suspended on it:
  \<open>add\<close> does not wait for the flush.  When the buffer is shorter than the threshold,
  and for every cap when \<open>flushThreshold\<close> is absent or 0, \<open>add\<close> suspends no call and
  does not call the flush callback.  For the accumulator of the test
  (\<open>flushThreshold = 3\<close>, timer off): no call after two items, one call with \<open>abc\<close>
  after the third, and the buffer is empty.
\<close>

theorem threshold_trigger:
  "(0 < maxBatchSize (config s) \<and> flushThreshold (config s) = Some n \<and> n \<noteq> 0 \<and>
    n \<le> int (length (drop (length (items s) + 1 - nat (maxBatchSize (config s))) (items s @ [x]))) \<longrightarrow>
      flusher_calls (trace (add x s)) =
        flusher_calls (trace s) @
        [drop (length (items s) + 1 - nat (maxBatchSize (config s))) (items s @ [x])] \<and>
      items (add x s) = [] \<and>
      (flusher s (drop (length (items s) + 1 - nat (maxBatchSize (config s))) (items s @ [x])) = Pending \<longrightarrow>
         tasks (add x s) = tasks s @ [(next_task s, ByThreshold, AwaitFlusher)] \<and>
         flushing (add x s) = True)) \<and>
   (0 < maxBatchSize (config s) \<and> flushThreshold (config s) = Some n \<and>
    \<not> n \<le> int (length (drop (length (items s) + 1 - nat (maxBatchSize (config s))) (items s @ [x]))) \<longrightarrow>
      flusher_calls (trace (add x s)) = flusher_calls (trace s) \<and>
      tasks (add x s) = tasks s \<and>
      items (add x s) = drop (length (items s) + 1 - nat (maxBatchSize (config s))) (items s @ [x])) \<and>
   (flushThreshold (config s) = None \<or> flushThreshold (config s) = Some 0 \<longrightarrow>
      flusher_calls (trace (add x s)) = flusher_calls (trace s) \<and>
      tasks (add x s) = tasks s \<and> next_task (add x s) = next_task s) \<and>
   armed amount_batch = [] \<and>
   flusher_calls (trace (run amount_batch (map Add ''ab''))) = [] \<and>
   items (run amount_batch (map Add ''ab'')) = ''ab'' \<and>
   flusher_calls (trace (run amount_batch (map Add ''abc''))) = [''abc''] \<and>
   tasks (run amount_batch (map Add ''abc'')) = [(0, ByThreshold, AwaitFlusher)] \<and>
   items (run amount_batch (map Add ''abc'')) = []"
proof (intro conjI impI)
  assume a: "0 < maxBatchSize (config s) \<and> flushThreshold (config s) = Some n \<and> n \<noteq> 0 \<and>
    n \<le> int (length (drop (length (items s) + 1 - nat (maxBatchSize (config s))) (items s @ [x])))"
  then have a1: "0 < maxBatchSize (config s)" and a2: "truthy (flushThreshold (config s))"
    and a3: "the (flushThreshold (config s)) \<le>
      int (length (drop (length (items s) + 1 - nat (maxBatchSize (config s))) (items s @ [x])))"
    by (simp_all add: truthy_def)
  note f = add_fires [OF a1 a2 a3]
  show "flusher_calls (trace (add x s)) =
        flusher_calls (trace s) @
        [drop (length (items s) + 1 - nat (maxBatchSize (config s))) (items s @ [x])]"
    by (rule f(3))
  show "items (add x s) = []" by (rule f(2))
  assume p: "flusher s (drop (length (items s) + 1 - nat (maxBatchSize (config s))) (items s @ [x])) = Pending"
  note g = add_fires_pending [OF a1 a2 a3 p]
  show "tasks (add x s) = tasks s @ [(next_task s, ByThreshold, AwaitFlusher)]" by (rule g(1))
  show "flushing (add x s) = True" by (rule g(2))
next
  assume a: "0 < maxBatchSize (config s) \<and> flushThreshold (config s) = Some n \<and>
    \<not> n \<le> int (length (drop (length (items s) + 1 - nat (maxBatchSize (config s))) (items s @ [x])))"
  then have e: "add x s = buffered x s"
    by (simp add: add_eq items_buffered_pos)
  show "flusher_calls (trace (add x s)) = flusher_calls (trace s)" by (simp add: e)
  show "tasks (add x s) = tasks s" by (simp add: e)
  show "items (add x s) = drop (length (items s) + 1 - nat (maxBatchSize (config s))) (items s @ [x])"
    using a by (simp add: e items_buffered_pos)
next
  assume "flushThreshold (config s) = None \<or> flushThreshold (config s) = Some 0"
  then have "\<not> truthy (flushThreshold (config s))" by (auto simp: truthy_def)
  then have e: "add x s = buffered x s" by (rule add_plain)
  show "flusher_calls (trace (add x s)) = flusher_calls (trace s)" by (simp add: e)
  show "tasks (add x s) = tasks s" by (simp add: e)
  show "next_task (add x s) = next_task s" by (simp add: e)
qed code_simp+

theorem threshold_trigger_witness:
  "0 < maxBatchSize (config (run amount_batch (map Add ''ab''))) \<and>
   flushThreshold (config (run amount_batch (map Add ''ab''))) = Some 3 \<and>
   flusher_calls (trace (add CHR ''c'' (run amount_batch (map Add ''ab'')))) = [''abc''] \<and>
   tasks (add CHR ''c'' (run amount_batch (map Add ''ab''))) = [(0, ByThreshold, AwaitFlusher)] \<and>
   flushing (add CHR ''c'' (run amount_batch (map Add ''ab''))) = True \<and>
   tasks (add CHR ''b'' (run amount_batch (map Add ''a''))) = [] \<and>
   items (add CHR ''b'' (run amount_batch (map Add ''a''))) = ''ab'' \<and>
   flushThreshold (config interval_batch) = None \<and>
   tasks (add CHR ''a'' interval_batch) = tasks interval_batch"
proof -
  let ?s = "run amount_batch (map Add ''ab'')"
  let ?t = "run amount_batch (map Add ''a'')"
  have h: "0 < maxBatchSize (config ?s)" "flushThreshold (config ?s) = Some 3"
    "(3 :: int) \<le> int (length (drop (length (items ?s) + 1 - nat (maxBatchSize (config ?s))) (items ?s @ ''c'')))"
    "flusher ?s (drop (length (items ?s) + 1 - nat (maxBatchSize (config ?s))) (items ?s @ ''c'')) = Pending"
    by code_simp+
  have v: "drop (length (items ?s) + 1 - nat (maxBatchSize (config ?s))) (items ?s @ ''c'') = ''abc''"
    "flusher_calls (trace ?s) = []" "tasks ?s = []" "next_task ?s = 0"
    by code_simp+
  have k: "0 < maxBatchSize (config ?t)" "flushThreshold (config ?t) = Some 3"
    "\<not> (3 :: int) \<le> int (length (drop (length (items ?t) + 1 - nat (maxBatchSize (config ?t))) (items ?t @ ''b'')))"
    by code_simp+
  have w: "drop (length (items ?t) + 1 - nat (maxBatchSize (config ?t))) (items ?t @ ''b'') = ''ab''"
    "tasks ?t = []"
    by code_simp+
  have i: "flushThreshold (config interval_batch) = None" by code_simp
  from threshold_trigger [of ?s 3 "CHR ''c''"] h
  have 1: "flusher_calls (trace (add CHR ''c'' ?s)) = [''abc'']"
    "tasks (add CHR ''c'' ?s) = [(0, ByThreshold, AwaitFlusher)]"
    "flushing (add CHR ''c'' ?s) = True"
    unfolding v by simp_all
  from threshold_trigger [of ?t 3 "CHR ''b''"] k
  have 2: "tasks (add CHR ''b'' ?t) = []" "items (add CHR ''b'' ?t) = ''ab''"
    unfolding w by simp_all
  from threshold_trigger [of interval_batch _ "CHR ''a''"] i
  have 3: "tasks (add CHR ''a'' interval_batch) = tasks interval_batch"
    by simp
  show ?thesis using h(1,2) i 1 2 3 by blast
qed

section \<open>drain\<close>

lemma removeAll_only: "\<forall>x \<in> set xs. x = t \<Longrightarrow> removeAll t xs = []"
  by (induction xs) auto

lemma drain_pending:
  assumes "items s \<noteq> []" "flusher s (items s) = Pending" "wf_tasks s"
  shows "map_of (tasks (drain s)) (next_task s) = Some (ByDrain, AwaitFlusher)"
    and "trace (drain s) =
           trace s @ [Debug DDrain] @
           map (\<lambda>cb. Invoke cb \<lparr>size' = 0, isRunning = running s, isFlushing = True\<rparr>) (pubsub s) @
           [Debug (DFlushing (length (items s))), FlusherCalled (next_task s) (items s)]"
    and "flushing (drain s) = True"
proof -
  let ?s' = "debug DDrain s"
  have i: "items ?s' \<noteq> []" "flusher ?s' (items ?s') = Pending" and w: "wf_tasks ?s'"
    using assms by (simp_all add: wf_tasks_def)
  from map_of_flush_pending [OF i w, of ByDrain]
  show "map_of (tasks (drain s)) (next_task s) = Some (ByDrain, AwaitFlusher)"
    by (simp add: drain_def)
  note p = flush_pending [OF i, of ByDrain]
  show "trace (drain s) =
           trace s @ [Debug DDrain] @
           map (\<lambda>cb. Invoke cb \<lparr>size' = 0, isRunning = running s, isFlushing = True\<rparr>) (pubsub s) @
           [Debug (DFlushing (length (items s))), FlusherCalled (next_task s) (items s)]"
    by (simp add: drain_def p)
  show "flushing (drain s) = True" by (simp add: drain_def p)
qed

lemma drain_frame [simp]:
  "items (drain s) = []" "running (drain s) = running s" "pubsub (drain s) = pubsub s"
  "armed (drain s) = armed s" "flushTimer (drain s) = flushTimer s" "config (drain s) = config s"
  by (simp_all add: drain_def)

text \<open>
  What \<open>drain()\<close> does when the flush succeeds, from any state with a non-empty buffer
  whose flush callback returns a promise that is fulfilled with \<open>b\<close>: up to the moment
  the flush has settled, \<open>stop\<close> has not run (the running flag and the armed timeouts
  are as before); when \<open>drain\<close> resumes it stops and then fulfils its own promise with
  the same \<open>b\<close>.  After that the buffer is empty, \<open>running\<close> and \<open>flushing\<close> are false,
  and the timeout whose handle is stored is cancelled; only when the stored one was the
  only armed timeout is no timeout left armed.
\<close>

theorem drain_semantics:
  assumes "items s \<noteq> []" and "flusher s (items s) = Pending" and "wf_tasks s"
  shows
   "flusher_calls (trace (drain s)) = flusher_calls (trace s) @ [items s] \<and>
    running (settle (next_task s) (Inr b) (drain s)) = running s \<and>
    armed (settle (next_task s) (Inr b) (drain s)) = armed s \<and>
    map_of (tasks (settle (next_task s) (Inr b) (drain s))) (next_task s) =
      Some (ByDrain, AwaitFlush (Inr b)) \<and>
    trace (resume (next_task s) (settle (next_task s) (Inr b) (drain s))) =
      trace (settle (next_task s) (Inr b) (drain s)) @ [Debug DStop] @
      map (\<lambda>cb. Invoke cb \<lparr>size' = 0, isRunning = False, isFlushing = False\<rparr>) (pubsub s) @
      [Settled (next_task s) (Inr b)] \<and>
    items (resume (next_task s) (settle (next_task s) (Inr b) (drain s))) = [] \<and>
    running (resume (next_task s) (settle (next_task s) (Inr b) (drain s))) = False \<and>
    flushing (resume (next_task s) (settle (next_task s) (Inr b) (drain s))) = False \<and>
    armed (resume (next_task s) (settle (next_task s) (Inr b) (drain s))) =
      (case flushTimer s of None \<Rightarrow> armed s | Some t \<Rightarrow> removeAll t (armed s)) \<and>
    (list_all (\<lambda>t. flushTimer s = Some t) (armed s) \<longrightarrow>
       armed (resume (next_task s) (settle (next_task s) (Inr b) (drain s))) = [])"
proof -
  let ?tid = "next_task s"
  note d = drain_pending [OF assms]
  have o: "ByDrain \<noteq> ByCaller" by simp
  note c = settle_internal [OF d(1) o, of "Inr b"]
  have m2: "map_of (tasks (settle ?tid (Inr b) (drain s))) ?tid = Some (ByDrain, AwaitFlush (Inr b))"
    using d(1) o by (rule map_of_settle_internal)
  note r = resume_drain_ok [OF m2]
  have 1: "flusher_calls (trace (drain s)) = flusher_calls (trace s) @ [items s]"
    by (simp add: d(2))
  have 2: "running (settle ?tid (Inr b) (drain s)) = running s"
    "armed (settle ?tid (Inr b) (drain s)) = armed s"
    by simp_all
  have 3: "trace (resume ?tid (settle ?tid (Inr b) (drain s))) =
      trace (settle ?tid (Inr b) (drain s)) @ [Debug DStop] @
      map (\<lambda>cb. Invoke cb \<lparr>size' = 0, isRunning = False, isFlushing = False\<rparr>) (pubsub s) @
      [Settled ?tid (Inr b)]"
    by (simp add: r) (simp add: c)
  have 4: "items (resume ?tid (settle ?tid (Inr b) (drain s))) = []"
    "flushing (resume ?tid (settle ?tid (Inr b) (drain s))) = False"
    by (simp_all add: c)
  have 5: "running (resume ?tid (settle ?tid (Inr b) (drain s))) = False"
    by (simp add: r)
  have 6: "armed (resume ?tid (settle ?tid (Inr b) (drain s))) =
      (case flushTimer s of None \<Rightarrow> armed s | Some t \<Rightarrow> removeAll t (armed s))"
    by (simp add: r split: option.splits)
  have 7: "list_all (\<lambda>t. flushTimer s = Some t) (armed s) \<Longrightarrow>
       armed (resume ?tid (settle ?tid (Inr b) (drain s))) = []"
  proof -
    assume l: "list_all (\<lambda>t. flushTimer s = Some t) (armed s)"
    show ?thesis
    proof (cases "flushTimer s")
      case None
      with l have "armed s = []" by (cases "armed s") simp_all
      with None show ?thesis by (simp add: 6)
    next
      case (Some t)
      with l have "\<forall>x \<in> set (armed s). x = t" by (simp add: list_all_iff)
      then have "removeAll t (armed s) = []" by (rule removeAll_only)
      with Some show ?thesis by (simp add: 6)
    qed
  qed
  show ?thesis using 1 2 m2 3 4 5 6 7 by blast
qed


theorem drain_semantics_witness:
  "items (run drain_batch (map Add ''abc'')) \<noteq> [] \<and>
   flusher (run drain_batch (map Add ''abc'')) (items (run drain_batch (map Add ''abc''))) = Pending \<and>
   wf_tasks (run drain_batch (map Add ''abc'')) \<and>
   running (run drain_batch (map Add ''abc'')) = True \<and>
   list_all (\<lambda>t. flushTimer (run drain_batch (map Add ''abc'')) = Some t)
     (armed (run drain_batch (map Add ''abc''))) \<and>
   armed (run drain_batch (map Add ''abc'')) = [0] \<and>
   flusher_calls (trace (drain (run drain_batch (map Add ''abc'')))) = [''abc''] \<and>
   running (settle 0 (Inr True) (drain (run drain_batch (map Add ''abc'')))) = True \<and>
   trace (resume 0 (settle 0 (Inr True) (drain (run drain_batch (map Add ''abc''))))) =
     trace (settle 0 (Inr True) (drain (run drain_batch (map Add ''abc'')))) @
     [Debug DStop, Settled 0 (Inr True)] \<and>
   items (resume 0 (settle 0 (Inr True) (drain (run drain_batch (map Add ''abc''))))) = [] \<and>
   running (resume 0 (settle 0 (Inr True) (drain (run drain_batch (map Add ''abc''))))) = False \<and>
   armed (resume 0 (settle 0 (Inr True) (drain (run drain_batch (map Add ''abc''))))) = []"
proof -
  let ?s = "run drain_batch (map Add ''abc'')"
  have h: "items ?s \<noteq> []" "flusher ?s (items ?s) = Pending" "wf_tasks ?s" by code_simp+
  have l: "list_all (\<lambda>t. flushTimer ?s = Some t) (armed ?s)" by code_simp
  have v: "next_task ?s = 0" "pubsub ?s = []" "running ?s = True" "armed ?s = [0]"
    "flusher_calls (trace ?s) = []" "items ?s = ''abc''"
    by code_simp+
  from drain_semantics [OF h, of True] l
  have "flusher_calls (trace (drain ?s)) = flusher_calls (trace ?s) @ [items ?s] \<and>
    running (settle (next_task ?s) (Inr True) (drain ?s)) = running ?s \<and>
    trace (resume (next_task ?s) (settle (next_task ?s) (Inr True) (drain ?s))) =
      trace (settle (next_task ?s) (Inr True) (drain ?s)) @ [Debug DStop] @
      map (\<lambda>cb. Invoke cb \<lparr>size' = 0, isRunning = False, isFlushing = False\<rparr>) (pubsub ?s) @
      [Settled (next_task ?s) (Inr True)] \<and>
    items (resume (next_task ?s) (settle (next_task ?s) (Inr True) (drain ?s))) = [] \<and>
    running (resume (next_task ?s) (settle (next_task ?s) (Inr True) (drain ?s))) = False \<and>
    armed (resume (next_task ?s) (settle (next_task ?s) (Inr True) (drain ?s))) = []"
    by blast
  then show ?thesis using h l unfolding v by simp
qed

text \<open>
  Claim C7 (drain) against the code.  The claim asks that \<open>drain()\<close> on every non-empty,
  running accumulator leaves it stopped with the timer cancelled.  \<open>stop\<close> cancels the
  timeout whose handle is stored in \<open>#flushTimer\<close>; \<open>start()\<close> on a running accumulator
  has armed a second timeout and overwritten the handle of the first, which nothing can
  cancel any more.  For the accumulator of the drain test after \<open>start()\<close> and
  \<open>add("a")\<close>: the buffer is non-empty, the accumulator is running, two timeouts are
  armed; \<open>drain()\<close> delivers \<open>a\<close>, returns the callback's \<open>true\<close> and leaves the buffer
  empty and \<open>running\<close> false, but timeout 0 is still armed, and when it fires it
  flushes what was added after the drain although the accumulator is stopped.
\<close>

theorem drain_leaves_timeout_armed:
  "items (run drain_batch [Start, Add CHR ''a'']) = ''a'' \<and>
   running (run drain_batch [Start, Add CHR ''a'']) = True \<and>
   armed (run drain_batch [Start, Add CHR ''a'']) = [0, 1] \<and>
   flushTimer (run drain_batch [Start, Add CHR ''a'']) = Some 1 \<and>
   flusher_calls (trace (run drain_batch [Start, Add CHR ''a'', Drain, Settle 0 (Inr True), Resume 0])) =
     [''a''] \<and>
   last (trace (run drain_batch [Start, Add CHR ''a'', Drain, Settle 0 (Inr True), Resume 0])) =
     Settled 0 (Inr True) \<and>
   tasks (run drain_batch [Start, Add CHR ''a'', Drain, Settle 0 (Inr True), Resume 0]) = [] \<and>
   items (run drain_batch [Start, Add CHR ''a'', Drain, Settle 0 (Inr True), Resume 0]) = [] \<and>
   running (run drain_batch [Start, Add CHR ''a'', Drain, Settle 0 (Inr True), Resume 0]) = False \<and>
   armed (run drain_batch [Start, Add CHR ''a'', Drain, Settle 0 (Inr True), Resume 0]) = [0] \<and>
   running (run drain_batch
     [Start, Add CHR ''a'', Drain, Settle 0 (Inr True), Resume 0, Add CHR ''b'', Fire 0]) = False \<and>
   flusher_calls (trace (run drain_batch
     [Start, Add CHR ''a'', Drain, Settle 0 (Inr True), Resume 0, Add CHR ''b'', Fire 0])) =
     [''a'', ''b'']"
  by code_simp

text \<open>
  Claim C10 (drain when the flush fails).  \<open>drain()\<close> called with a non-empty buffer,
  whose flush callback rejects with \<open>e\<close> (or throws \<open>e\<close> before returning a promise):
  when \<open>drain\<close> resumes, the rejection leaves \<open>drain\<close> at \<open>await this.flush()\<close>, its
  promise is rejected with \<open>e\<close> and \<open>stop\<close> is never called: no \<open>stop\<close> log, no
  notification, and the running flag, the stored handle and the armed timeouts are what
  they were before \<open>drain\<close>.  The buffer is empty and \<open>flushing\<close> is false, as
  \<open>flush\<close> left them.
\<close>

theorem drain_failure:
  assumes "items s \<noteq> []" and "wf_tasks s"
  shows
   "(flusher s (items s) = Pending \<longrightarrow>
       map_of (tasks (settle (next_task s) (Inl e) (drain s))) (next_task s) =
         Some (ByDrain, AwaitFlush (Inl e)) \<and>
       trace (resume (next_task s) (settle (next_task s) (Inl e) (drain s))) =
         trace (settle (next_task s) (Inl e) (drain s)) @ [Settled (next_task s) (Inl e)] \<and>
       running (resume (next_task s) (settle (next_task s) (Inl e) (drain s))) = running s \<and>
       armed (resume (next_task s) (settle (next_task s) (Inl e) (drain s))) = armed s \<and>
       flushTimer (resume (next_task s) (settle (next_task s) (Inl e) (drain s))) = flushTimer s \<and>
       items (resume (next_task s) (settle (next_task s) (Inl e) (drain s))) = [] \<and>
       flushing (resume (next_task s) (settle (next_task s) (Inl e) (drain s))) = False) \<and>
    (flusher s (items s) = Throws e \<longrightarrow>
       map_of (tasks (drain s)) (next_task s) = Some (ByDrain, AwaitFlush (Inl e)) \<and>
       trace (resume (next_task s) (drain s)) = trace (drain s) @ [Settled (next_task s) (Inl e)] \<and>
       running (resume (next_task s) (drain s)) = running s \<and>
       armed (resume (next_task s) (drain s)) = armed s \<and>
       flushTimer (resume (next_task s) (drain s)) = flushTimer s \<and>
       items (resume (next_task s) (drain s)) = [] \<and>
       flushing (resume (next_task s) (drain s)) = False)"
proof (intro conjI impI)
  let ?tid = "next_task s"
  assume p: "flusher s (items s) = Pending"
  note d = drain_pending [OF assms(1) p assms(2)]
  have o: "ByDrain \<noteq> ByCaller" by simp
  note c = settle_internal [OF d(1) o, of "Inl e"]
  show m2: "map_of (tasks (settle ?tid (Inl e) (drain s))) ?tid = Some (ByDrain, AwaitFlush (Inl e))"
    using d(1) o by (rule map_of_settle_internal)
  note r = resume_drain_failed [OF m2]
  show "trace (resume ?tid (settle ?tid (Inl e) (drain s))) =
         trace (settle ?tid (Inl e) (drain s)) @ [Settled ?tid (Inl e)]"
    by (simp add: r)
  show "running (resume ?tid (settle ?tid (Inl e) (drain s))) = running s"
    "armed (resume ?tid (settle ?tid (Inl e) (drain s))) = armed s"
    "flushTimer (resume ?tid (settle ?tid (Inl e) (drain s))) = flushTimer s"
    by (simp_all add: r)
  show "items (resume ?tid (settle ?tid (Inl e) (drain s))) = []" by simp
  show "flushing (resume ?tid (settle ?tid (Inl e) (drain s))) = False" by (simp add: c)
next
  let ?tid = "next_task s"
  let ?s' = "debug DDrain s"
  assume t: "flusher s (items s) = Throws e"
  have i: "items ?s' \<noteq> []" "flusher ?s' (items ?s') = Throws e"
    using assms t by simp_all
  note f = flush_throws [OF i, of ByDrain]
  have "map_of (tasks s @ [(?tid, ByDrain, AwaitFlush (Inl e))]) ?tid = Some (ByDrain, AwaitFlush (Inl e))"
    using assms(2) unfolding wf_tasks_def by (rule map_of_fresh)
  then show m: "map_of (tasks (drain s)) ?tid = Some (ByDrain, AwaitFlush (Inl e))"
    by (simp add: drain_def f flush_settled_def del: map_of_append)
  note r = resume_drain_failed [OF m]
  show "trace (resume ?tid (drain s)) = trace (drain s) @ [Settled ?tid (Inl e)]"
    by (simp add: r)
  show "running (resume ?tid (drain s)) = running s"
    "armed (resume ?tid (drain s)) = armed s"
    "flushTimer (resume ?tid (drain s)) = flushTimer s"
    by (simp_all add: r)
  show "items (resume ?tid (drain s)) = []" by simp
  show "flushing (resume ?tid (drain s)) = False"
    by (simp add: drain_def f flush_settled_def)
qed

theorem drain_failure_witness:
  "items (run drain_batch (map Add ''abc'')) \<noteq> [] \<and>
   wf_tasks (run drain_batch (map Add ''abc'')) \<and>
   flusher (run drain_batch (map Add ''abc'')) (items (run drain_batch (map Add ''abc''))) = Pending \<and>
   running (run drain_batch (map Add ''abc'')) = True \<and>
   armed (run drain_batch (map Add ''abc'')) = [0] \<and>
   trace (resume 0 (settle 0 (Inl ''boom'') (drain (run drain_batch (map Add ''abc''))))) =
     trace (settle 0 (Inl ''boom'') (drain (run drain_batch (map Add ''abc'')))) @ [Settled 0 (Inl ''boom'')] \<and>
   running (resume 0 (settle 0 (Inl ''boom'') (drain (run drain_batch (map Add ''abc''))))) = True \<and>
   armed (resume 0 (settle 0 (Inl ''boom'') (drain (run drain_batch (map Add ''abc''))))) = [0] \<and>
   items (resume 0 (settle 0 (Inl ''boom'') (drain (run drain_batch (map Add ''abc''))))) = [] \<and>
   flushing (resume 0 (settle 0 (Inl ''boom'') (drain (run drain_batch (map Add ''abc''))))) = False \<and>
   items ((run drain_batch (map Add ''abc''))\<lparr>flusher := \<lambda>_. Throws ''boom''\<rparr>) \<noteq> [] \<and>
   wf_tasks ((run drain_batch (map Add ''abc''))\<lparr>flusher := \<lambda>_. Throws ''boom''\<rparr>) \<and>
   flusher ((run drain_batch (map Add ''abc''))\<lparr>flusher := \<lambda>_. Throws ''boom''\<rparr>)
     (items ((run drain_batch (map Add ''abc''))\<lparr>flusher := \<lambda>_. Throws ''boom''\<rparr>)) = Throws ''boom'' \<and>
   running (resume 0 (drain ((run drain_batch (map Add ''abc''))\<lparr>flusher := \<lambda>_. Throws ''boom''\<rparr>))) = True \<and>
   armed (resume 0 (drain ((run drain_batch (map Add ''abc''))\<lparr>flusher := \<lambda>_. Throws ''boom''\<rparr>))) = [0]"
proof -
  let ?s = "run drain_batch (map Add ''abc'')"
  let ?t = "?s\<lparr>flusher := \<lambda>_. Throws ''boom''\<rparr>"
  have h: "items ?s \<noteq> []" "wf_tasks ?s" and p: "flusher ?s (items ?s) = Pending" by code_simp+
  have v: "next_task ?s = 0" "running ?s = True" "armed ?s = [0]" by code_simp+
  have k: "items ?t \<noteq> []" "wf_tasks ?t" and q: "flusher ?t (items ?t) = Throws ''boom''" by code_simp+
  have w: "next_task ?t = 0" "running ?t = True" "armed ?t = [0]" by code_simp+
  from drain_failure [OF h, of "''boom''"] p
  have 1: "trace (resume 0 (settle 0 (Inl ''boom'') (drain ?s))) =
     trace (settle 0 (Inl ''boom'') (drain ?s)) @ [Settled 0 (Inl ''boom'')]"
    "running (resume 0 (settle 0 (Inl ''boom'') (drain ?s))) = True"
    "armed (resume 0 (settle 0 (Inl ''boom'') (drain ?s))) = [0]"
    "items (resume 0 (settle 0 (Inl ''boom'') (drain ?s))) = []"
    "flushing (resume 0 (settle 0 (Inl ''boom'') (drain ?s))) = False"
    unfolding v by simp_all
  from drain_failure [OF k, of "''boom''"] q
  have 2: "running (resume 0 (drain ?t)) = True" "armed (resume 0 (drain ?t)) = [0]"
    unfolding w by simp_all
  show ?thesis using h p v(2,3) k q 1 2 by blast
qed

section \<open>subscribe\<close>

lemma invocations_absent [simp]:
  "cb \<notin> set cbs \<Longrightarrow> invocations cb (map (\<lambda>c. Invoke c st) cbs) = []"
  by (simp add: invocations_publish)

lemma invocations_once:
  "count_list cbs cb = 1 \<Longrightarrow> invocations cb (map (\<lambda>c. Invoke c st) cbs) = [st]"
  by (simp add: invocations_publish)

lemma silent_flush_settled [simp]:
  "invocations cb (trace (flush_settled tid org r s)) = invocations cb (trace s)"
  by (cases org) (simp_all add: flush_settled_def)

lemma silent_flush_finally:
  "cb \<notin> set (pubsub s) \<Longrightarrow>
   invocations cb (trace (flush_finally tid org r s)) = invocations cb (trace s)"
  by (cases r) (simp_all add: flush_finally_def Let_def)

lemma silent_flush:
  "cb \<notin> set (pubsub s) \<Longrightarrow> invocations cb (trace (flush org s)) = invocations cb (trace s)"
  by (simp add: flush_def Let_def silent_flush_finally split: flusher_call.splits)

lemma silent_settle:
  "cb \<notin> set (pubsub s) \<Longrightarrow> invocations cb (trace (settle tid r s)) = invocations cb (trace s)"
  using settle_cases [of s tid r] by (auto simp: silent_flush_finally)

lemma resume_pubsub [simp]: "pubsub (resume tid s) = pubsub s"
  by (simp add: resume_def doFlush_resume_def Let_def
      split: option.splits stage.splits sum.splits origin.splits prod.splits)

lemma silent_resume:
  "cb \<notin> set (pubsub s) \<Longrightarrow> invocations cb (trace (resume tid s)) = invocations cb (trace s)"
  by (simp add: resume_def doFlush_resume_def Let_def
      split: option.splits stage.splits sum.splits origin.splits prod.splits)

lemma silent_buffered:
  "cb \<notin> set (pubsub s) \<Longrightarrow> invocations cb (trace (buffered x s)) = invocations cb (trace s)"
  by (simp add: trace_buffered)

lemma add_pubsub [simp]: "pubsub (add x s) = pubsub s"
  by (simp add: add_eq)

lemma silent_add:
  "cb \<notin> set (pubsub s) \<Longrightarrow> invocations cb (trace (add x s)) = invocations cb (trace s)"
  by (simp add: add_eq silent_flush silent_buffered)

lemma silent_exec:
  assumes "cb \<notin> set (pubsub s)" and "a \<noteq> Subscribe cb"
  shows "invocations cb (trace (exec a s)) = invocations cb (trace s) \<and> cb \<notin> set (pubsub (exec a s))"
proof (cases a)
  case (Add x)
  then show ?thesis using assms by (simp add: silent_add)
next
  case Flush
  then show ?thesis using assms by (simp add: silent_flush)
next
  case Drain
  then show ?thesis using assms by (simp add: drain_def silent_flush)
next
  case Reset
  then show ?thesis using assms by (simp add: reset_def)
next
  case (Configure es)
  then show ?thesis using assms by (simp add: configure_def)
next
  case (Subscribe c)
  then show ?thesis using assms by (simp add: subscribe_def pubsub_subscribe_def)
next
  case (Unsubscribe c)
  then show ?thesis using assms by (simp add: unsubscribe_def)
next
  case (Fire t)
  then show ?thesis using assms by (simp add: fire_def doFlush_def silent_flush)
next
  case (Settle tid r)
  then show ?thesis using assms by (simp add: silent_settle)
next
  case (Resume tid)
  then show ?thesis using assms by (simp add: silent_resume)
qed (use assms in simp_all)

lemma silent_run:
  "cb \<notin> set (pubsub s) \<Longrightarrow> Subscribe cb \<notin> set as \<Longrightarrow>
   invocations cb (trace (run s as)) = invocations cb (trace s)"
proof (induction as arbitrary: s)
  case Nil
  show ?case by simp
next
  case (Cons a as)
  then have "a \<noteq> Subscribe cb" "Subscribe cb \<notin> set as" by auto
  with Cons.prems(1) silent_exec [of cb s a] Cons.IH [of "exec a s"] show ?case by simp
qed


text \<open>
  Claim C8 (subscription contract).  \<open>subscribe(cb)\<close> of a callback that is not yet
  registered invokes it once with the current snapshot and registers it once.  For a
  callback registered once: \<open>reset\<close>, \<open>start\<close>, \<open>stop\<close>, an \<open>add\<close> that starts no
  flush, the start of a flush (a flush of a non-empty buffer) and the end of a flush each
  invoke it exactly once more, with the snapshot of the state they leave; an \<open>add\<close>
  that reaches the threshold invokes it once for the \<open>add\<close> (with the size after the
  cap) and once for the start of the flush; a flush of an empty buffer does not invoke
  it.  After \<open>unsubscribe\<close> the callback is not registered, and a callback that is not
  registered is not invoked by any sequence of actions that does not subscribe it again.
\<close>

theorem subscription_contract:
  assumes "cb \<notin> set (pubsub s)"
  shows
   "invocations cb (trace (subscribe cb s)) = invocations cb (trace s) @ [getState s] \<and>
    getState (subscribe cb s) = getState s \<and>
    count_list (pubsub (subscribe cb s)) cb = 1 \<and>
    (count_list (pubsub t) cb = 1 \<longrightarrow>
       invocations cb (trace (reset t)) = invocations cb (trace t) @ [getState (reset t)] \<and>
       invocations cb (trace (start t)) = invocations cb (trace t) @ [getState (start t)] \<and>
       invocations cb (trace (stop t)) = invocations cb (trace t) @ [getState (stop t)] \<and>
       (next_task (add x t) = next_task t \<longrightarrow>
          invocations cb (trace (add x t)) = invocations cb (trace t) @ [getState (add x t)]) \<and>
       (0 < maxBatchSize (config t) \<and> flushThreshold (config t) = Some n \<and> n \<noteq> 0 \<and>
        n \<le> int (length (drop (length (items t) + 1 - nat (maxBatchSize (config t))) (items t @ [x]))) \<and>
        flusher t (drop (length (items t) + 1 - nat (maxBatchSize (config t))) (items t @ [x])) = Pending \<longrightarrow>
          invocations cb (trace (add x t)) =
            invocations cb (trace t) @
            [\<lparr>size' = length (drop (length (items t) + 1 - nat (maxBatchSize (config t))) (items t @ [x])),
              isRunning = running t, isFlushing = flushing t\<rparr>,
             \<lparr>size' = 0, isRunning = running t, isFlushing = True\<rparr>]) \<and>
       (items t \<noteq> [] \<and> flusher t (items t) = Pending \<longrightarrow>
          invocations cb (trace (flush org t)) = invocations cb (trace t) @ [getState (flush org t)] \<and>
          getState (flush org t) = \<lparr>size' = 0, isRunning = running t, isFlushing = True\<rparr>) \<and>
       (items t = [] \<longrightarrow> invocations cb (trace (flush org t)) = invocations cb (trace t)) \<and>
       (map_of (tasks t) tid = Some (org, AwaitFlusher) \<longrightarrow>
          invocations cb (trace (settle tid r t)) = invocations cb (trace t) @ [getState (settle tid r t)] \<and>
          getState (settle tid r t) =
            \<lparr>size' = length (items t), isRunning = running t, isFlushing = False\<rparr>)) \<and>
    cb \<notin> set (pubsub (unsubscribe cb u)) \<and>
    (cb \<notin> set (pubsub u) \<and> Subscribe cb \<notin> set as \<longrightarrow>
       invocations cb (trace (run u as)) = invocations cb (trace u))"
proof (intro conjI impI)
  show "invocations cb (trace (subscribe cb s)) = invocations cb (trace s) @ [getState s]"
    by (simp add: subscribe_def pubsub_subscribe_def)
  show "getState (subscribe cb s) = getState s"
    by (simp add: subscribe_def pubsub_subscribe_def getState_def)
  show "count_list (pubsub (subscribe cb s)) cb = 1"
    using assms by (simp add: subscribe_def pubsub_subscribe_def)
  show "cb \<notin> set (pubsub (unsubscribe cb u))" by (simp add: unsubscribe_def)
next
  assume c: "count_list (pubsub t) cb = 1"
  show "invocations cb (trace (reset t)) = invocations cb (trace t) @ [getState (reset t)]"
    using c by (simp add: reset_def getState_def invocations_once)
  show "invocations cb (trace (start t)) = invocations cb (trace t) @ [getState (start t)]"
    using c by (simp add: getState_def invocations_once)
  show "invocations cb (trace (stop t)) = invocations cb (trace t) @ [getState (stop t)]"
    using c by (simp add: getState_def invocations_once)
next
  assume c: "count_list (pubsub t) cb = 1" and n: "next_task (add x t) = next_task t"
  have "add x t = buffered x t"
  proof (rule ccontr)
    assume "add x t \<noteq> buffered x t"
    then have "add x t =
      flush ByThreshold (debug (DThresholdReached (the (flushThreshold (config t)))) (buffered x t))"
      by (simp add: add_eq split: if_splits)
    then have "next_task (add x t) = Suc (next_task t)" by simp
    with n show False by simp
  qed
  then show "invocations cb (trace (add x t)) = invocations cb (trace t) @ [getState (add x t)]"
    using c by (simp add: trace_buffered getState_def invocations_once)
next
  assume c: "count_list (pubsub t) cb = 1"
    and a: "0 < maxBatchSize (config t) \<and> flushThreshold (config t) = Some n \<and> n \<noteq> 0 \<and>
        n \<le> int (length (drop (length (items t) + 1 - nat (maxBatchSize (config t))) (items t @ [x]))) \<and>
        flusher t (drop (length (items t) + 1 - nat (maxBatchSize (config t))) (items t @ [x])) = Pending"
  then have a1: "0 < maxBatchSize (config t)" and a2: "truthy (flushThreshold (config t))"
    and a3: "the (flushThreshold (config t)) \<le>
      int (length (drop (length (items t) + 1 - nat (maxBatchSize (config t))) (items t @ [x])))"
    and a4: "flusher t (drop (length (items t) + 1 - nat (maxBatchSize (config t))) (items t @ [x])) = Pending"
    by (simp_all add: truthy_def)
  note g = add_fires_pending [OF a1 a2 a3 a4]
  show "invocations cb (trace (add x t)) =
            invocations cb (trace t) @
            [\<lparr>size' = length (drop (length (items t) + 1 - nat (maxBatchSize (config t))) (items t @ [x])),
              isRunning = running t, isFlushing = flushing t\<rparr>,
             \<lparr>size' = 0, isRunning = running t, isFlushing = True\<rparr>]"
    using c a1 by (simp add: g(3) trace_buffered invocations_once items_buffered_pos)
next
  assume c: "count_list (pubsub t) cb = 1" and a: "items t \<noteq> [] \<and> flusher t (items t) = Pending"
  then have p: "flush org t =
     t\<lparr>next_task := Suc (next_task t), items := [], flushing := True,
       trace := trace t @
         map (\<lambda>cb. Invoke cb \<lparr>size' = 0, isRunning = running t, isFlushing = True\<rparr>) (pubsub t) @
         [Debug (DFlushing (length (items t))), FlusherCalled (next_task t) (items t)],
       tasks := tasks t @ [(next_task t, org, AwaitFlusher)]\<rparr>"
    by (simp add: flush_pending)
  show g: "getState (flush org t) = \<lparr>size' = 0, isRunning = running t, isFlushing = True\<rparr>"
    by (simp add: p getState_def)
  show "invocations cb (trace (flush org t)) = invocations cb (trace t) @ [getState (flush org t)]"
    unfolding g using c by (simp add: p invocations_once)
next
  assume "items t = []"
  then show "invocations cb (trace (flush org t)) = invocations cb (trace t)"
    by (simp add: flush_empty)
next
  assume c: "count_list (pubsub t) cb = 1" and m: "map_of (tasks t) tid = Some (org, AwaitFlusher)"
  note f = settle_found [OF m, of r]
  show g: "getState (settle tid r t) =
            \<lparr>size' = length (items t), isRunning = running t, isFlushing = False\<rparr>"
    by (simp add: getState_def) (simp add: f)
  show "invocations cb (trace (settle tid r t)) = invocations cb (trace t) @ [getState (settle tid r t)]"
    unfolding g using c by (simp add: f invocations_once split: sum.splits)
next
  assume "cb \<notin> set (pubsub u) \<and> Subscribe cb \<notin> set as"
  then show "invocations cb (trace (run u as)) = invocations cb (trace u)"
    by (simp add: silent_run)
qed


theorem subscription_contract_witness:
  "7 \<notin> set (pubsub manual_batch) \<and>
   invocations 7 (trace (subscribe 7 manual_batch)) =
     [\<lparr>size' = 0, isRunning = False, isFlushing = False\<rparr>] \<and>
   count_list (pubsub (run manual_batch [Subscribe 7, Start, Add CHR ''a''])) 7 = 1 \<and>
   next_task (add CHR ''b'' (run manual_batch [Subscribe 7, Start, Add CHR ''a''])) =
     next_task (run manual_batch [Subscribe 7, Start, Add CHR ''a'']) \<and>
   invocations 7 (trace (add CHR ''b'' (run manual_batch [Subscribe 7, Start, Add CHR ''a'']))) =
     invocations 7 (trace (run manual_batch [Subscribe 7, Start, Add CHR ''a''])) @
     [\<lparr>size' = 2, isRunning = True, isFlushing = False\<rparr>] \<and>
   invocations 7 (trace (stop (run manual_batch [Subscribe 7, Start, Add CHR ''a'']))) =
     invocations 7 (trace (run manual_batch [Subscribe 7, Start, Add CHR ''a''])) @
     [\<lparr>size' = 1, isRunning = False, isFlushing = False\<rparr>] \<and>
   items (run manual_batch [Subscribe 7, Start, Add CHR ''a'']) \<noteq> [] \<and>
   flusher (run manual_batch [Subscribe 7, Start, Add CHR ''a''])
     (items (run manual_batch [Subscribe 7, Start, Add CHR ''a''])) = Pending \<and>
   invocations 7 (trace (flush ByCaller (run manual_batch [Subscribe 7, Start, Add CHR ''a'']))) =
     invocations 7 (trace (run manual_batch [Subscribe 7, Start, Add CHR ''a''])) @
     [\<lparr>size' = 0, isRunning = True, isFlushing = True\<rparr>] \<and>
   count_list (pubsub (run manual_batch [Subscribe 7, Start, Add CHR ''a'', Flush])) 7 = 1 \<and>
   map_of (tasks (run manual_batch [Subscribe 7, Start, Add CHR ''a'', Flush])) 0 =
     Some (ByCaller, AwaitFlusher) \<and>
   invocations 7 (trace (settle 0 (Inr True) (run manual_batch [Subscribe 7, Start, Add CHR ''a'', Flush]))) =
     invocations 7 (trace (run manual_batch [Subscribe 7, Start, Add CHR ''a'', Flush])) @
     [\<lparr>size' = 0, isRunning = True, isFlushing = False\<rparr>] \<and>
   items (run manual_batch [Subscribe 7, Start, Add CHR ''a'', Flush]) = [] \<and>
   invocations 7 (trace (flush ByCaller (run manual_batch [Subscribe 7, Start, Add CHR ''a'', Flush]))) =
     invocations 7 (trace (run manual_batch [Subscribe 7, Start, Add CHR ''a'', Flush])) \<and>
   count_list (pubsub (run amount_batch [Subscribe 7, Add CHR ''a'', Add CHR ''b''])) 7 = 1 \<and>
   invocations 7 (trace (add CHR ''c'' (run amount_batch [Subscribe 7, Add CHR ''a'', Add CHR ''b'']))) =
     invocations 7 (trace (run amount_batch [Subscribe 7, Add CHR ''a'', Add CHR ''b''])) @
     [\<lparr>size' = 3, isRunning = True, isFlushing = False\<rparr>,
      \<lparr>size' = 0, isRunning = True, isFlushing = True\<rparr>] \<and>
   7 \<notin> set (pubsub (unsubscribe 7 (run manual_batch [Subscribe 7, Start, Add CHR ''a'']))) \<and>
   Subscribe 7 \<notin> set [Add CHR ''c'', Flush, Stop :: (char, string) action] \<and>
   invocations 7 (trace (run (unsubscribe 7 (run manual_batch [Subscribe 7, Start, Add CHR ''a'']))
       [Add CHR ''c'', Flush, Stop])) =
     invocations 7 (trace (unsubscribe 7 (run manual_batch [Subscribe 7, Start, Add CHR ''a''])))"
proof -
  let ?t = "run manual_batch [Subscribe 7, Start, Add CHR ''a'']"
  let ?f = "run manual_batch [Subscribe 7, Start, Add CHR ''a'', Flush]"
  let ?a = "run amount_batch [Subscribe 7, Add CHR ''a'', Add CHR ''b'']"
  let ?u = "unsubscribe 7 ?t"
  let ?as = "[Add CHR ''c'', Flush, Stop] :: (char, string) action list"
  have h: "7 \<notin> set (pubsub manual_batch)" by code_simp
  have v: "getState manual_batch = \<lparr>size' = 0, isRunning = False, isFlushing = False\<rparr>"
    "invocations 7 (trace manual_batch) = []"
    by code_simp+
  have t: "count_list (pubsub ?t) 7 = 1" "next_task (add CHR ''b'' ?t) = next_task ?t"
    "items ?t \<noteq> []" "flusher ?t (items ?t) = Pending"
    by code_simp+
  have tv: "getState (add CHR ''b'' ?t) = \<lparr>size' = 2, isRunning = True, isFlushing = False\<rparr>"
    "getState (stop ?t) = \<lparr>size' = 1, isRunning = False, isFlushing = False\<rparr>"
    "running ?t = True"
    by code_simp+
  have f: "count_list (pubsub ?f) 7 = 1" "map_of (tasks ?f) 0 = Some (ByCaller, AwaitFlusher)"
    "items ?f = []"
    by code_simp+
  have fv: "running ?f = True" by code_simp
  have a: "count_list (pubsub ?a) 7 = 1" "0 < maxBatchSize (config ?a)"
    "flushThreshold (config ?a) = Some 3" "(3 :: int) \<noteq> 0"
    "3 \<le> int (length (drop (length (items ?a) + 1 - nat (maxBatchSize (config ?a))) (items ?a @ ''c'')))"
    "flusher ?a (drop (length (items ?a) + 1 - nat (maxBatchSize (config ?a))) (items ?a @ ''c'')) = Pending"
    by code_simp+
  have av: "length (drop (length (items ?a) + 1 - nat (maxBatchSize (config ?a))) (items ?a @ ''c'')) = 3"
    "running ?a = True" "flushing ?a = False"
    by code_simp+
  have u: "Subscribe 7 \<notin> set ?as" by code_simp
  from subscription_contract [OF h, where t = "manual_batch" and x = "CHR ''c''" and n = 3 and org = ByCaller and tid = 0 and r = "Inr True" and u = "manual_batch" and as = "[]"]
  have 1: "invocations 7 (trace (subscribe 7 manual_batch)) =
     [\<lparr>size' = 0, isRunning = False, isFlushing = False\<rparr>]"
    unfolding v by simp
  from subscription_contract [OF h, where t = "?t" and x = "CHR ''b''" and n = 3 and org = ByCaller and tid = 0 and r = "Inr True" and u = "manual_batch" and as = "[]"] t
  have 2: "invocations 7 (trace (add CHR ''b'' ?t)) =
     invocations 7 (trace ?t) @ [\<lparr>size' = 2, isRunning = True, isFlushing = False\<rparr>]"
    "invocations 7 (trace (stop ?t)) =
     invocations 7 (trace ?t) @ [\<lparr>size' = 1, isRunning = False, isFlushing = False\<rparr>]"
    "invocations 7 (trace (flush ByCaller ?t)) =
     invocations 7 (trace ?t) @ [\<lparr>size' = 0, isRunning = True, isFlushing = True\<rparr>]"
    unfolding tv by simp_all
  from subscription_contract [OF h, where t = "?f" and x = "CHR ''c''" and n = 3 and org = ByCaller and tid = 0 and r = "Inr True" and u = "manual_batch" and as = "[]"] f
  have 3: "invocations 7 (trace (settle 0 (Inr True) ?f)) =
     invocations 7 (trace ?f) @ [\<lparr>size' = 0, isRunning = True, isFlushing = False\<rparr>]"
    "invocations 7 (trace (flush ByCaller ?f)) = invocations 7 (trace ?f)"
    unfolding fv by simp_all
  from subscription_contract [OF h, where t = "?a" and x = "CHR ''c''" and n = 3 and org = ByCaller and tid = 0 and r = "Inr True" and u = "manual_batch" and as = "[]"] a
  have 4: "invocations 7 (trace (add CHR ''c'' ?a)) =
     invocations 7 (trace ?a) @
     [\<lparr>size' = 3, isRunning = True, isFlushing = False\<rparr>,
      \<lparr>size' = 0, isRunning = True, isFlushing = True\<rparr>]"
    unfolding av by simp
  from subscription_contract [OF h, where t = "manual_batch" and x = "CHR ''c''" and n = 3 and org = ByCaller and tid = 0 and r = "Inr True" and u = "?t" and as = "[]"]
  have 5: "7 \<notin> set (pubsub ?u)" by blast
  from subscription_contract [OF h, where t = "manual_batch" and x = "CHR ''c''" and n = 3 and org = ByCaller and tid = 0 and r = "Inr True" and u = "?u" and as = "?as"] 5 u
  have 6: "invocations 7 (trace (run ?u ?as)) = invocations 7 (trace ?u)" by blast
  show ?thesis using h t f a(1) 1 2 3 4 5 u 6 by blast
qed

section \<open>The timer chain\<close>

lemma timer_tasks_frame [simp]:
  "timer_tasks (emit ev s) = timer_tasks s" "timer_tasks (debug m s) = timer_tasks s"
  "timer_tasks (notify s) = timer_tasks s" "timer_tasks (clearTimeout h s) = timer_tasks s"
  "timer_tasks (scheduleFlush s) = timer_tasks s" "timer_tasks (stop s) = timer_tasks s"
  "timer_tasks (start s) = timer_tasks s" "timer_tasks (buffered x s) = timer_tasks s"
  "timer_tasks (s\<lparr>flushing := b\<rparr>) = timer_tasks s" "timer_tasks (s\<lparr>armed := a\<rparr>) = timer_tasks s"
  "timer_tasks (s\<lparr>items := i\<rparr>) = timer_tasks s" "timer_tasks (s\<lparr>running := b\<rparr>) = timer_tasks s"
  "timer_tasks (s\<lparr>trace := tr\<rparr>) = timer_tasks s" "timer_tasks (s\<lparr>next_task := k\<rparr>) = timer_tasks s"
  "timer_tasks (s\<lparr>config := c\<rparr>) = timer_tasks s" "timer_tasks (s\<lparr>pubsub := p\<rparr>) = timer_tasks s"
  "timer_tasks (s\<lparr>tasks := ts\<rparr>) = filter (\<lambda>t. fst (snd t) = ByTimer) ts"
  by (simp_all add: timer_tasks_def)

lemma timer_inv_mono:
  assumes "timer_inv s" and "armed s' = armed s" and "flushTimer s' = flushTimer s"
    and "length (timer_tasks s') \<le> length (timer_tasks s)"
  shows "timer_inv s'"
  using assms by (simp add: timer_inv_def)

lemma timer_inv_armed:
  assumes "timer_inv s"
  shows "armed s = [] \<or> (\<exists>t. armed s = [t] \<and> flushTimer s = Some t \<and> timer_tasks s = [])"
proof (cases "armed s")
  case Nil
  then show ?thesis by simp
next
  case (Cons t ts)
  with assms have "ts = []" "timer_tasks s = []" "flushTimer s = Some t"
    by (simp_all add: timer_inv_def)
  with Cons show ?thesis by simp
qed

lemma timer_tasks_filter:
  "length (filter (\<lambda>t. fst (snd t) = ByTimer) (filter (\<lambda>t. fst t \<noteq> tid) ts))
   \<le> length (filter (\<lambda>t. fst (snd t) = ByTimer) ts)"
  by (induction ts) auto

lemma timer_tasks_filter_less:
  "map_of ts tid = Some (ByTimer, st) \<Longrightarrow>
   length (filter (\<lambda>t. fst (snd t) = ByTimer) (filter (\<lambda>t. fst t \<noteq> tid) ts))
   < length (filter (\<lambda>t. fst (snd t) = ByTimer) ts)"
proof (induction ts)
  case Nil
  then show ?case by simp
next
  case (Cons t ts)
  show ?case
  proof (cases "fst t = tid")
    case True
    with Cons.prems have "fst (snd t) = ByTimer" by (cases t) auto
    with True timer_tasks_filter [of tid ts] show ?thesis by (simp add: less_Suc_eq_le)
  next
    case False
    with Cons.prems have "map_of ts tid = Some (ByTimer, st)" by (cases t) auto
    with Cons.IH False show ?thesis by simp
  qed
qed

lemma timer_tasks_take:
  "length (timer_tasks (take_task tid s)) \<le> length (timer_tasks s)"
  "map_of (tasks s) tid = Some (ByTimer, st) \<Longrightarrow>
   length (timer_tasks (take_task tid s)) < length (timer_tasks s)"
  by (simp_all add: timer_tasks_def timer_tasks_filter timer_tasks_filter_less del: filter_filter)

lemma timer_tasks_flush_settled:
  "length (timer_tasks (flush_settled tid org r s)) =
   length (timer_tasks s) + (if org = ByTimer then 1 else 0)"
  by (cases org) (simp_all add: flush_settled_def timer_tasks_def)

lemma timer_tasks_flush_finally:
  "length (timer_tasks (flush_finally tid org r s)) =
   length (timer_tasks s) + (if org = ByTimer then 1 else 0)"
  by (cases r) (simp_all add: flush_finally_def Let_def timer_tasks_flush_settled)

lemma timer_tasks_flush:
  "length (timer_tasks (flush org s)) = length (timer_tasks s) + (if org = ByTimer then 1 else 0)"
proof (cases "items s = []")
  case True
  then show ?thesis by (simp add: flush_empty timer_tasks_flush_settled)
next
  case False
  show ?thesis
  proof (cases "flusher s (items s)")
    case (Throws e)
    with False show ?thesis
      by (simp add: flush_throws timer_tasks_flush_settled)
  next
    case Pending
    with False show ?thesis by (simp add: flush_pending timer_tasks_def)
  qed
qed

lemma timer_inv_flush:
  assumes "org \<noteq> ByTimer" and "timer_inv s"
  shows "timer_inv (flush org s)"
  using assms(2) by (rule timer_inv_mono) (simp_all add: timer_tasks_flush assms(1))

lemma timer_inv_settle: "timer_inv s \<Longrightarrow> timer_inv (settle tid r s)"
proof -
  assume i: "timer_inv s"
  from settle_cases [of s tid r] show ?thesis
  proof
    assume "\<exists>org. map_of (tasks s) tid = Some (org, AwaitFlusher) \<and>
       settle tid r s = flush_finally tid org r (take_task tid s)"
    then obtain org where m: "map_of (tasks s) tid = Some (org, AwaitFlusher)"
      and e: "settle tid r s = flush_finally tid org r (take_task tid s)" by blast
    have l: "length (timer_tasks (settle tid r s)) \<le> length (timer_tasks s)"
    proof (cases "org = ByTimer")
      case True
      with m timer_tasks_take(2) [of s tid AwaitFlusher] show ?thesis
        by (simp add: e timer_tasks_flush_finally)
    next
      case False
      with timer_tasks_take(1) [of tid s] show ?thesis by (simp add: e timer_tasks_flush_finally)
    qed
    from i show ?thesis by (rule timer_inv_mono) (simp_all add: l)
  next
    assume "settle tid r s = s"
    with i show ?thesis by simp
  qed
qed


lemma timer_inv_stop: "timer_inv s \<Longrightarrow> timer_inv (stop s)"
  using timer_inv_armed [of s] by (auto simp: timer_inv_def split: option.splits)

lemma timer_inv_schedule:
  "armed s = [] \<Longrightarrow> timer_tasks s = [] \<Longrightarrow> timer_inv (scheduleFlush s)"
  by (simp add: timer_inv_def scheduleFlush_def timer_tasks_def)

lemma timer_inv_start:
  "armed s = [] \<Longrightarrow> timer_tasks s = [] \<Longrightarrow> timer_inv (start s)"
  by (simp add: start_def timer_inv_schedule)

lemma timer_inv_fire: "timer_inv s \<Longrightarrow> timer_inv (fire t s)"
proof -
  assume i: "timer_inv s"
  show ?thesis
  proof (cases "t \<in> set (armed s)")
    case False
    with i show ?thesis by (simp add: fire_def)
  next
    case True
    with timer_inv_armed [OF i] have "armed s = [t]" "timer_tasks s = []" by auto
    with True show ?thesis
      by (simp add: fire_def doFlush_def timer_inv_def timer_tasks_flush)
  qed
qed

lemma timer_inv_add: "timer_inv s \<Longrightarrow> timer_inv (add x s)"
proof -
  assume i: "timer_inv s"
  then have b: "timer_inv (debug m (buffered x s))" for m
    by (rule timer_inv_mono) simp_all
  from i have "timer_inv (buffered x s)" by (rule timer_inv_mono) simp_all
  with b show ?thesis by (simp add: add_eq timer_inv_flush)
qed

lemma doFlush_resume_timer [simp]:
  "armed (fst (doFlush_resume r s)) = armed s"
  "flushTimer (fst (doFlush_resume r s)) = flushTimer s"
  "tasks (fst (doFlush_resume r s)) = tasks s"
  "timer_tasks (fst (doFlush_resume r s)) = timer_tasks s"
  by (cases r; simp add: doFlush_resume_def)+

lemma timer_inv_resume: "timer_inv s \<Longrightarrow> timer_inv (resume tid s)"
proof -
  assume i: "timer_inv s"
  note le = timer_tasks_take(1) [of tid s]
  have keep: "timer_inv s'" if "armed s' = armed s" "flushTimer s' = flushTimer s"
    "length (timer_tasks s') \<le> length (timer_tasks (take_task tid s))" for s' :: "('a, 'b) BatchFlusher"
    using i by (rule timer_inv_mono) (use that le in simp_all)
  show ?thesis
  proof (cases "map_of (tasks s) tid")
    case None
    with i show ?thesis by (simp add: resume_def)
  next
    case (Some p)
    obtain org st where p: "p = (org, st)" by (cases p)
    show ?thesis
    proof (cases st)
      case AwaitFlusher
      with Some p i show ?thesis by (cases org) (simp_all add: resume_def)
    next
      case (AwaitFlush r)
      show ?thesis
      proof (cases org)
        case ByCaller
        with Some p AwaitFlush i show ?thesis by (simp add: resume_def)
      next
        case ByThreshold
        have "timer_inv (fst (doFlush_resume r (take_task tid s)))"
          "timer_inv (emit ev (fst (doFlush_resume r (take_task tid s))))" for ev
          by (rule keep; simp)+
        with Some p AwaitFlush ByThreshold show ?thesis
          by (auto simp add: resume_def split: prod.splits option.splits)
      next
        case ByTimer
        with Some p AwaitFlush have m: "map_of (tasks s) tid = Some (ByTimer, AwaitFlush r)" by simp
        let ?D = "doFlush_resume r (take_task tid s)"
        have e: "resume tid s =
          (fst ?D)\<lparr>tasks := tasks (fst ?D) @ [(tid, ByTimer, AwaitDoFlush (snd ?D))]\<rparr>"
          using m by (simp add: resume_def case_prod_beta)
        show ?thesis unfolding e
          using i by (rule timer_inv_mono) (use timer_tasks_take(2) [OF m] in \<open>simp_all add: timer_tasks_def\<close>)
      next
        case ByDrain
        have "timer_inv (emit ev (take_task tid s))" for ev by (rule keep; simp)
        moreover have "timer_inv (take_task tid s)" by (rule keep; simp)
        then have "timer_inv (stop (take_task tid s))" by (rule timer_inv_stop)
        then have "timer_inv (emit ev (stop (take_task tid s)))" for ev
          by (rule timer_inv_mono) simp_all
        ultimately show ?thesis using Some p AwaitFlush ByDrain
          by (cases r) (simp_all add: resume_def)
      qed
    next
      case (AwaitDoFlush d)
      show ?thesis
      proof (cases org)
        case ByTimer
        with Some p AwaitDoFlush have m: "map_of (tasks s) tid = Some (ByTimer, AwaitDoFlush d)" by simp
        from timer_tasks_take(2) [OF m] i
        have "length (timer_tasks (take_task tid s)) = 0" "length (armed s) = 0"
          unfolding timer_inv_def by linarith+
        then have t: "timer_tasks (take_task tid s) = []" "armed s = []" by simp_all
        have "timer_inv (emit ev (take_task tid s))" for ev by (rule keep; simp)
        moreover have "timer_inv (scheduleFlush (clearTimeout (flushTimer s) (take_task tid s)))"
          using t by (intro timer_inv_schedule) (simp_all split: option.splits)
        ultimately show ?thesis using m by (cases d) (simp_all add: resume_def Let_def)
      qed (use Some p AwaitDoFlush i in \<open>simp_all add: resume_def\<close>)
    qed
  qed
qed

lemma timer_inv_exec:
  assumes "timer_inv s" and "case a of Start \<Rightarrow> armed s = [] \<and> timer_tasks s = [] | _ \<Rightarrow> True"
  shows "timer_inv (exec a s)"
proof (cases a)
  case (Add x)
  with assms show ?thesis by (simp add: timer_inv_add)
next
  case Flush
  with assms show ?thesis by (simp add: timer_inv_flush)
next
  case Drain
  have "timer_inv (debug DDrain s)" using assms(1) by (rule timer_inv_mono) simp_all
  with Drain show ?thesis by (simp add: drain_def timer_inv_flush)
next
  case Start
  with assms show ?thesis by (simp add: timer_inv_start)
next
  case Stop
  with assms show ?thesis by (simp add: timer_inv_stop)
next
  case Reset
  have "timer_inv (reset s)" using assms(1) by (rule timer_inv_mono) (simp_all add: reset_def)
  with Reset show ?thesis by simp
next
  case (Configure es)
  have "timer_inv (configure es s)" using assms(1) by (rule timer_inv_mono) (simp_all add: configure_def)
  with Configure show ?thesis by simp
next
  case (Subscribe cb)
  have "timer_inv (subscribe cb s)"
    using assms(1) by (rule timer_inv_mono) (simp_all add: subscribe_def pubsub_subscribe_def)
  with Subscribe show ?thesis by simp
next
  case (Unsubscribe cb)
  have "timer_inv (unsubscribe cb s)"
    using assms(1) by (rule timer_inv_mono) (simp_all add: unsubscribe_def)
  with Unsubscribe show ?thesis by simp
next
  case (Fire t)
  with assms show ?thesis by (simp add: timer_inv_fire)
next
  case (Settle tid r)
  with assms show ?thesis by (simp add: timer_inv_settle)
next
  case (Resume tid)
  with assms show ?thesis by (simp add: timer_inv_resume)
qed

lemma timer_inv_run:
  "timer_inv s \<Longrightarrow> starts_idle s as \<Longrightarrow> timer_inv (run s as)"
proof (induction as arbitrary: s)
  case Nil
  then show ?case by simp
next
  case (Cons a as)
  then have "timer_inv (exec a s)" by (intro timer_inv_exec) simp_all
  with Cons show ?case by simp
qed

lemma timer_inv_new: "timer_inv (new_BatchFlusher f cfg autostart)"
proof -
  let ?s1 = "case cfg of None \<Rightarrow> initial f | Some es \<Rightarrow> configure es (initial f)"
  let ?s2 = "?s1\<lparr>logger_ns := logger (config ?s1)\<rparr>"
  have e: "armed ?s2 = []" "timer_tasks ?s2 = []"
    by (cases cfg; simp add: initial_def configure_def timer_tasks_def)+
  then have "timer_inv ?s2" by (simp add: timer_inv_def)
  moreover from e have "timer_inv (start ?s2)" by (rule timer_inv_start)
  ultimately show ?thesis by (simp add: new_BatchFlusher_def Let_def)
qed


lemma length_filter_conj: "length (filter (\<lambda>t. P t \<and> Q t) xs) \<le> length (filter P xs)"
  by (induction xs) auto

text \<open>
  Claim C3 (one scheduler-initiated flush at a time), amended.  The timer chain is
  single: a new accumulator has at most one armed timeout, and along every sequence of
  actions (adds, flushes, drains, stops, resets, reconfigurations, subscriptions, firing
  timeouts, settling callbacks, resuming calls, in any order) in which \<open>start()\<close> is
  only called while no timeout is armed and no run of the timer callback is unfinished,
  the armed timeouts and the unfinished runs of the timer callback are together at most
  one, an armed timeout is the one whose handle is stored, and so at most one call of the
  flush callback started by the timer is in flight.  Such a \<open>start()\<close> arms one
  timeout (when the interval is not 0 or absent) and stores its handle.
\<close>

theorem timer_chain_single:
  "timer_inv (new_BatchFlusher f cfg autostart) \<and>
   (timer_inv s \<and> starts_idle s as \<longrightarrow>
      length (armed (run s as)) + length (timer_tasks (run s as)) \<le> 1 \<and>
      list_all (\<lambda>t. flushTimer (run s as) = Some t) (armed (run s as)) \<and>
      length (filter (\<lambda>t. fst (snd t) = ByTimer \<and> snd (snd t) = AwaitFlusher) (tasks (run s as))) \<le> 1) \<and>
   (armed s = [] \<and> timer_tasks s = [] \<and> truthy (flushIntervalMs (config s)) \<longrightarrow>
      armed (start s) = [next_timer s] \<and> flushTimer (start s) = Some (next_timer s)) \<and>
   (\<not> truthy (flushIntervalMs (config s)) \<longrightarrow>
      armed (start s) = armed s \<and> flushTimer (start s) = flushTimer s)"
proof (intro conjI impI)
  show "timer_inv (new_BatchFlusher f cfg autostart)" by (rule timer_inv_new)
next
  assume "timer_inv s \<and> starts_idle s as"
  then have i: "timer_inv (run s as)" by (simp add: timer_inv_run)
  then show "length (armed (run s as)) + length (timer_tasks (run s as)) \<le> 1"
    and "list_all (\<lambda>t. flushTimer (run s as) = Some t) (armed (run s as))"
    by (simp_all add: timer_inv_def)
  have "length (filter (\<lambda>t. fst (snd t) = ByTimer \<and> snd (snd t) = AwaitFlusher) (tasks (run s as)))
        \<le> length (timer_tasks (run s as))"
    unfolding timer_tasks_def by (rule length_filter_conj)
  with i show "length (filter (\<lambda>t. fst (snd t) = ByTimer \<and> snd (snd t) = AwaitFlusher) (tasks (run s as))) \<le> 1"
    by (simp add: timer_inv_def)
next
  assume "armed s = [] \<and> timer_tasks s = [] \<and> truthy (flushIntervalMs (config s))"
  then show "armed (start s) = [next_timer s]" "flushTimer (start s) = Some (next_timer s)"
    by (simp_all add: start_def scheduleFlush_def)
next
  assume "\<not> truthy (flushIntervalMs (config s))"
  then show "armed (start s) = armed s" "flushTimer (start s) = flushTimer s"
    by (simp_all add: start_def scheduleFlush_def)
qed

theorem timer_chain_single_witness:
  "timer_inv interval_batch \<and>
   starts_idle interval_batch
     [Add CHR ''a'', Fire 0, Add CHR ''b'', Settle 0 (Inr True), Resume 0, Resume 0, Stop, Start] \<and>
   armed (run interval_batch
     [Add CHR ''a'', Fire 0, Add CHR ''b'', Settle 0 (Inr True), Resume 0, Resume 0, Stop, Start]) = [2] \<and>
   length (armed (run interval_batch
     [Add CHR ''a'', Fire 0, Add CHR ''b'', Settle 0 (Inr True), Resume 0, Resume 0, Stop, Start])) +
   length (timer_tasks (run interval_batch
     [Add CHR ''a'', Fire 0, Add CHR ''b'', Settle 0 (Inr True), Resume 0, Resume 0, Stop, Start])) \<le> 1 \<and>
   armed (stop interval_batch) = [] \<and> timer_tasks (stop interval_batch) = [] \<and>
   truthy (flushIntervalMs (config (stop interval_batch))) \<and>
   armed (start (stop interval_batch)) = [1] \<and>
   \<not> truthy (flushIntervalMs (config manual_batch)) \<and>
   armed (start manual_batch) = []"
proof -
  let ?as = "[Add CHR ''a'', Fire 0, Add CHR ''b'', Settle 0 (Inr True), Resume 0, Resume 0, Stop, Start]
    :: (char, string) action list"
  have h: "timer_inv interval_batch" "starts_idle interval_batch ?as" by code_simp+
  have v: "armed (run interval_batch ?as) = [2]" by code_simp
  have k: "armed (stop interval_batch) = []" "timer_tasks (stop interval_batch) = []"
    "truthy (flushIntervalMs (config (stop interval_batch)))"
    by code_simp+
  have w: "next_timer (stop interval_batch) = 1" by code_simp
  have m: "\<not> truthy (flushIntervalMs (config manual_batch))" by code_simp
  have mv: "armed manual_batch = []" by code_simp
  from timer_chain_single [where s = interval_batch and as = ?as] h
  have 1: "length (armed (run interval_batch ?as)) + length (timer_tasks (run interval_batch ?as)) \<le> 1"
    by blast
  from timer_chain_single [where s = "stop interval_batch" and as = "[]"] k
  have 2: "armed (start (stop interval_batch)) = [1]" unfolding w by blast
  from timer_chain_single [where s = manual_batch and as = "[]"] m
  have 3: "armed (start manual_batch) = []" unfolding mv by blast
  show ?thesis using h v k m 1 2 3 by blast
qed

text \<open>
  The claim as it is written fails.  The threshold trigger has no guard: with
  \<open>flushThreshold = 1\<close> two \<open>add\<close> calls start two calls of the flush callback, both
  in flight at once.  And \<open>start()\<close> on a running accumulator arms a second timeout
  beside the first, whose handle it overwrites.
\<close>

theorem scheduler_exclusion_counterexample:
  "in_flight_internal
     (run (new_BatchFlusher (\<lambda>_. Pending)
        (Some [FlushIntervalMs (Some 0), FlushThreshold (Some 1), MaxBatchSize (Some 100)]) True
        :: (char, string) BatchFlusher) (map Add ''ab'')) =
     [(0, ByThreshold, AwaitFlusher), (1, ByThreshold, AwaitFlusher)] \<and>
   \<not> length (in_flight_internal
     (run (new_BatchFlusher (\<lambda>_. Pending)
        (Some [FlushIntervalMs (Some 0), FlushThreshold (Some 1), MaxBatchSize (Some 100)]) True
        :: (char, string) BatchFlusher) (map Add ''ab''))) \<le> 1 \<and>
   running interval_batch \<and> armed interval_batch = [0] \<and>
   armed (start interval_batch) = [0, 1] \<and>
   \<not> length (armed (start interval_batch)) \<le> 1"
  by code_simp

end
